theory Spec2Isabelle
  imports Main "HOL-Library.Word"
begin

section \<open>Python values and the object store\<close>

text \<open>
  The dashboard shares mutable Python objects between the bot thread, the state object
  and the HTTP handlers: the log list, the per-connection queues, the dicts and lists
  held in the public fields. Objects therefore live in a store indexed by address, and
  a value is either immediate or a reference into the store. A float is kept as its
  IEEE-754 bit pattern: the code stores and copies floats, it never computes on them.
\<close>

type_synonym addr = nat

datatype pyval =
    VNone
  | VBool bool
  | VInt int
  | VFloat "64 word"
  | VStr string
  | VRef addr

text \<open>A queued message is the tuple \<open>(event_type, data)\<close> built in \<open>_send_event\<close>.\<close>

type_synonym msg = "string \<times> string"

datatype pyobj =
    OList "pyval list"
  | ODict "(string \<times> pyval) list"
  | OQueue int "msg list"

text \<open>
  \<open>OQueue maxsize items\<close> is a \<open>queue.Queue\<close>; \<open>ODict\<close> keeps its entries in
  insertion order, as a Python dict does.
\<close>

datatype error =
    AttributeError
  | TypeError
  | ValueError
  | Full
  | Empty
  | OSError
  | OtherException string
  | KeyboardInterrupt
  | SystemExit

text \<open>
  \<open>KeyboardInterrupt\<close> and \<open>SystemExit\<close> derive from \<open>BaseException\<close> only; every
  other constructor is a subclass of \<open>Exception\<close>.
\<close>

fun is_Exception :: "error \<Rightarrow> bool" where
  "is_Exception KeyboardInterrupt = False"
| "is_Exception SystemExit = False"
| "is_Exception _ = True"

text \<open>
  The state of the program: the store, and the attributes of the one \<open>DashboardState\<close>
  instance. \<open>attrs\<close> is the instance dictionary for the public fields and for any other
  attribute a caller assigns; the three private fields the methods work on are kept as
  typed components (\<open>_lock\<close> has no content). \<open>_subscribers\<close> is a list that only the
  instance refers to, so it is kept by value; each of its entries is the address of a queue.
\<close>

record world =
  heap :: "pyobj list"
  attrs :: "string \<rightharpoonup> pyval"
  log_lines :: addr
  max_log_lines :: int
  subscribers :: "addr list"

definition hget :: "pyobj list \<Rightarrow> addr \<Rightarrow> pyobj option" where
  "hget h a = (if a < length h then Some (h ! a) else None)"

text \<open>Creating an object: the next unused address.\<close>

definition alloc :: "pyobj \<Rightarrow> world \<Rightarrow> addr \<times> world" where
  "alloc ob w = (length (heap w), w\<lparr>heap := heap w @ [ob]\<rparr>)"

text \<open>
  Python's \<open>xs[i:]\<close>: a negative start counts from the end and is clamped at the
  beginning of the list; a start beyond the end gives the empty list.
\<close>

definition slice_from :: "int \<Rightarrow> 'a list \<Rightarrow> 'a list" where
  "slice_from i xs =
     (if i < 0 then drop (nat (int (length xs) + i)) xs else drop (nat i) xs)"

section \<open>The subscriber registry\<close>

text \<open>\<open>Queue.put_nowait\<close>: raises \<open>Full\<close> when \<open>maxsize > 0\<close> and the queue holds \<open>maxsize\<close> items.\<close>

definition put_nowait :: "msg \<Rightarrow> addr \<Rightarrow> pyobj list \<Rightarrow> error + pyobj list" where
  "put_nowait m q h =
     (case hget h q of
        Some (OQueue mx items) \<Rightarrow>
          if 0 < mx \<and> mx \<le> int (length items) then Inl Full
          else Inr (h[q := OQueue mx (items @ [m])])
      | _ \<Rightarrow> Inl AttributeError)"

text \<open>
  The first loop of \<open>_send_event\<close>: one \<open>put_nowait\<close> per registered queue, in list
  order; \<open>Full\<close> is caught and the queue is noted in \<open>dead\<close>, any other exception leaves
  the loop with the store as it is at that point.
\<close>

fun put_all :: "msg \<Rightarrow> addr list \<Rightarrow> addr list \<Rightarrow> pyobj list \<Rightarrow> (error + addr list) \<times> pyobj list" where
  "put_all m [] dead h = (Inr dead, h)"
| "put_all m (q # qs) dead h =
     (case put_nowait m q h of
        Inr h' \<Rightarrow> put_all m qs dead h'
      | Inl Full \<Rightarrow> put_all m qs (dead @ [q]) h
      | Inl e \<Rightarrow> (Inl e, h))"

text \<open>\<open>list.remove\<close>: deletes the first occurrence, \<open>ValueError\<close> when there is none.\<close>

definition list_remove :: "'a \<Rightarrow> 'a list \<Rightarrow> error + 'a list" where
  "list_remove x xs = (if x \<in> set xs then Inr (remove1 x xs) else Inl ValueError)"

text \<open>The second loop of \<open>_send_event\<close>: \<open>for q in dead: self._subscribers.remove(q)\<close>.\<close>

fun remove_dead :: "addr list \<Rightarrow> addr list \<Rightarrow> (error + unit) \<times> addr list" where
  "remove_dead [] subs = (Inr (), subs)"
| "remove_dead (q # dead) subs =
     (case list_remove q subs of
        Inl e \<Rightarrow> (Inl e, subs)
      | Inr subs' \<Rightarrow> remove_dead dead subs')"

definition send_event :: "string \<Rightarrow> string \<Rightarrow> world \<Rightarrow> (error + unit) \<times> world" where
  "send_event event_type data w =
     (case put_all (event_type, data) (subscribers w) [] (heap w) of
        (Inl e, h) \<Rightarrow> (Inl e, w\<lparr>heap := h\<rparr>)
      | (Inr dead, h) \<Rightarrow>
          (case remove_dead dead (subscribers w) of
             (r, subs) \<Rightarrow> (r, w\<lparr>heap := h, subscribers := subs\<rparr>)))"

definition subscribe :: "world \<Rightarrow> addr \<times> world" where
  "subscribe w =
     (case alloc (OQueue 50 []) w of
        (q, w') \<Rightarrow> (q, w'\<lparr>subscribers := subscribers w' @ [q]\<rparr>))"

definition unsubscribe :: "addr \<Rightarrow> world \<Rightarrow> world" where
  "unsubscribe q w =
     (if q \<in> set (subscribers w) then w\<lparr>subscribers := remove1 q (subscribers w)\<rparr> else w)"

section \<open>The log buffer\<close>

text \<open>
  \<open>add_log\<close>: append to the list in place; if it is now longer than
  \<open>_max_log_lines\<close>, rebind \<open>_log_lines\<close> to a new list, the slice
  \<open>[-_max_log_lines:]\<close>; then publish the line as a \<open>log\<close> event.
\<close>

definition add_log :: "string \<Rightarrow> world \<Rightarrow> (error + unit) \<times> world" where
  "add_log line w =
     (case hget (heap w) (log_lines w) of
        Some (OList xs) \<Rightarrow>
          (let ys = xs @ [VStr line];
               w1 = w\<lparr>heap := (heap w)[log_lines w := OList ys]\<rparr>;
               w2 = (if max_log_lines w1 < int (length ys)
                     then (case alloc (OList (slice_from (- max_log_lines w1) ys)) w1 of
                             (a, w') \<Rightarrow> w'\<lparr>log_lines := a\<rparr>)
                     else w1)
           in send_event ''log'' line w2)
      | _ \<Rightarrow> (Inl AttributeError, w))"

text \<open>
  \<open>get_logs\<close>: the slice of the buffer, copied by \<open>list(...)\<close> into a new list object
  whose address is returned.
\<close>

definition get_logs :: "int \<Rightarrow> world \<Rightarrow> (error + addr) \<times> world" where
  "get_logs last_n w =
     (case hget (heap w) (log_lines w) of
        Some (OList xs) \<Rightarrow>
          (case alloc (OList (slice_from (- last_n) xs)) w of (a, w') \<Rightarrow> (Inr a, w'))
      | _ \<Rightarrow> (Inl TypeError, w))"

text \<open>\<open>list.append\<close> on the object at an address, as in \<open>self._log_lines.append(line)\<close>.\<close>

definition list_append :: "addr \<Rightarrow> pyval \<Rightarrow> world \<Rightarrow> (error + unit) \<times> world" where
  "list_append a v w =
     (case hget (heap w) a of
        Some (OList xs) \<Rightarrow> (Inr (), w\<lparr>heap := (heap w)[a := OList (xs @ [v])]\<rparr>)
      | _ \<Rightarrow> (Inl AttributeError, w))"

section \<open>Snapshots and state events\<close>

text \<open>The keys of the dict literal in \<open>to_dict\<close>, in the order they are written.\<close>

definition field_names :: "string list" where
  "field_names =
     [''status'', ''current_market'', ''market_asset'', ''market_duration'', ''market_ends'',
      ''markets_found'', ''windows_scanned'', ''up_best_ask'', ''up_best_bid'',
      ''down_best_ask'', ''down_best_bid'', ''combined_ask'', ''up_depth'', ''down_depth'',
      ''fee_bps'', ''bankroll'', ''deployed'', ''available'', ''realized_pnl'', ''daily_spent'',
      ''exchange_balance'', ''opportunities_seen'', ''opportunities_traded'', ''last_plan'',
      ''fill_rate'', ''api_stats'', ''positions'', ''config'']"

text \<open>
  The fields declared with a plain default: the dataclass keeps each default as a class
  attribute as well (\<open>config\<close> and \<open>positions\<close> have a default factory and no
  class attribute).
\<close>

definition class_defaults :: "(string \<times> pyval) list" where
  "class_defaults =
     [(''status'', VStr ''starting''), (''current_market'', VStr []),
      (''market_asset'', VStr []), (''market_duration'', VStr []),
      (''market_ends'', VStr []), (''markets_found'', VInt 0), (''windows_scanned'', VInt 0),
      (''up_best_ask'', VFloat 0), (''up_best_bid'', VFloat 0), (''down_best_ask'', VFloat 0),
      (''down_best_bid'', VFloat 0), (''combined_ask'', VFloat 0), (''up_depth'', VFloat 0),
      (''down_depth'', VFloat 0), (''fee_bps'', VInt 0), (''bankroll'', VFloat 0),
      (''deployed'', VFloat 0), (''available'', VFloat 0), (''realized_pnl'', VFloat 0),
      (''daily_spent'', VFloat 0), (''exchange_balance'', VNone),
      (''opportunities_seen'', VInt 0), (''opportunities_traded'', VInt 0),
      (''last_plan'', VNone), (''fill_rate'', VStr []), (''api_stats'', VStr [])]"

text \<open>
  Reading \<open>self.k\<close>: the instance attribute, else the class attribute, else
  \<open>AttributeError\<close>.
\<close>

definition getattr :: "(string \<rightharpoonup> pyval) \<Rightarrow> string \<Rightarrow> error + pyval" where
  "getattr a k =
     (case a k of
        Some v \<Rightarrow> Inr v
      | None \<Rightarrow> (case map_of class_defaults k of Some v \<Rightarrow> Inr v | None \<Rightarrow> Inl AttributeError))"

text \<open>The reads of the dict literal in \<open>to_dict\<close>, one per key, in order.\<close>

fun getattrs :: "(string \<rightharpoonup> pyval) \<Rightarrow> string list \<Rightarrow> error + (string \<times> pyval) list" where
  "getattrs a [] = Inr []"
| "getattrs a (k # ks) =
     (case getattr a k of
        Inl e \<Rightarrow> Inl e
      | Inr v \<Rightarrow> (case getattrs a ks of Inl e \<Rightarrow> Inl e | Inr kvs \<Rightarrow> Inr ((k, v) # kvs)))"

text \<open>
  \<open>to_dict\<close> builds a new dict object; each entry holds the value of the attribute as
  it is, so an attribute that refers to a list or a dict is entered as that reference.
\<close>

definition to_dict :: "world \<Rightarrow> (error + addr) \<times> world" where
  "to_dict w =
     (case getattrs (attrs w) field_names of
        Inl e \<Rightarrow> (Inl e, w)
      | Inr kvs \<Rightarrow> (case alloc (ODict kvs) w of (a, w') \<Rightarrow> (Inr a, w')))"

text \<open>
  \<open>json.dumps\<close> belongs to the standard library; it is a parameter \<open>dumps\<close> that reads
  the object at an address through the store and returns text or raises.
\<close>

type_synonym json_dumps = "pyobj list \<Rightarrow> addr \<Rightarrow> error + string"

definition notify :: "json_dumps \<Rightarrow> world \<Rightarrow> (error + unit) \<times> world" where
  "notify dumps w =
     (case to_dict w of
        (Inl e, w1) \<Rightarrow> (Inl e, w1)
      | (Inr a, w1) \<Rightarrow>
          (case dumps (heap w1) a of
             Inl e \<Rightarrow> (Inl e, w1)
           | Inr s \<Rightarrow> send_event ''state'' s w1))"

text \<open>
  The names of the methods of \<open>DashboardState\<close> that do not start with an
  underscore. A public data name is a name that starts with no underscore and is not
  one of these: the declared public fields, and any other name a caller may choose.
\<close>

definition method_names :: "string list" where
  "method_names = [''add_log'', ''get_logs'', ''to_dict'', ''subscribe'', ''unsubscribe'']"

definition public_name :: "string \<Rightarrow> bool" where
  "public_name k = (take 1 k \<noteq> ''_'' \<and> k \<notin> set method_names)"

text \<open>
  Assigning an attribute of the state object (\<open>state.k = v\<close>), which is how the bot
  writes a field: the value is stored in the instance dictionary under the name, declared
  or not. This is what the assignment does for a public data name. For the other names
  (\<open>_log_lines\<close>, \<open>_max_log_lines\<close>, \<open>_lock\<close>, \<open>_subscribers\<close>, the methods and
  the double-underscore attributes) the assignment would rebind a part of the object
  that the record keeps as a typed component or that the functions of this theory stand
  for; no code of the repository does that, and the theorems on field writes, on
  delivery and on returned lists are stated for public data names only.
\<close>

definition setattr :: "string \<Rightarrow> pyval \<Rightarrow> world \<Rightarrow> world" where
  "setattr k v w = w\<lparr>attrs := (attrs w)(k \<mapsto> v)\<rparr>"

text \<open>The bot's writes of several fields, one assignment after the other.\<close>

definition setattrs :: "(string \<times> pyval) list \<Rightarrow> world \<Rightarrow> world" where
  "setattrs kvs w = fold (\<lambda>(k, v). setattr k v) kvs w"

text \<open>
  The module-level \<open>state = DashboardState()\<close>: the default factories create the
  config dict, the positions list and the log list, in field order, and \<open>__init__\<close>
  sets every field on the instance.
\<close>

definition state0 :: world where
  "state0 =
     \<lparr>heap = [ODict [], OList [], OList []],
      attrs = map_of ((''config'', VRef 0) # class_defaults @ [(''positions'', VRef 1)]),
      log_lines = 2,
      max_log_lines = 500,
      subscribers = []\<rparr>"

section \<open>The log handler\<close>

text \<open>
  \<open>logging.Handler.format\<close> is library code: a parameter \<open>fmt\<close> that returns the
  formatted line or raises. \<open>emit\<close> runs both calls inside \<open>try\<close> and passes on
  \<open>except Exception\<close>, which every exception but the \<open>BaseException\<close>-only ones matches.
\<close>

definition emit :: "('r \<Rightarrow> error + string) \<Rightarrow> 'r \<Rightarrow> world \<Rightarrow> (error + unit) \<times> world" where
  "emit fmt record w =
     (case fmt record of
        Inl e \<Rightarrow> (if is_Exception e then (Inr (), w) else (Inl e, w))
      | Inr m \<Rightarrow>
          (case add_log m w of
             (Inl e, w') \<Rightarrow> (if is_Exception e then (Inr (), w') else (Inl e, w'))
           | (Inr u, w') \<Rightarrow> (Inr (), w')))"

section \<open>The event stream of one connection\<close>

text \<open>
  A Python \<open>str\<close> is taken as its UTF-8 bytes, so \<open>.encode()\<close> is the identity and an
  f-string is concatenation. The frame written for a queued message, and the frame
  written when \<open>q.get(timeout=15)\<close> raises \<open>Empty\<close>:
\<close>

definition sse_frame :: "string \<Rightarrow> string \<Rightarrow> string" where
  "sse_frame event_type data =
     ''event: '' @ event_type @ [CHR 0x0A] @ ''data: '' @ data @ [CHR 0x0A, CHR 0x0A]"

definition keepalive_frame :: string where
  "keepalive_frame = '':keepalive'' @ [CHR 0x0A, CHR 0x0A]"

text \<open>
  \<open>q.get(timeout=15)\<close>: the oldest item, or \<open>Empty\<close> when the queue has stayed empty
  for the whole timeout (an item that arrives during the wait is a publish that happens
  before this step).
\<close>

definition queue_get :: "addr \<Rightarrow> pyobj list \<Rightarrow> error + (msg \<times> pyobj list)" where
  "queue_get q h =
     (case hget h q of
        Some (OQueue mx []) \<Rightarrow> Inl Empty
      | Some (OQueue mx (m # items)) \<Rightarrow> Inr (m, h[q := OQueue mx items])
      | _ \<Rightarrow> Inl AttributeError)"

text \<open>
  The first part of \<open>_serve_sse\<close>: the init frame from \<open>to_dict()\<close> and
  \<open>get_logs(200)\<close>, then \<open>subscribe()\<close>. The result is the frame to write and the queue.
  The socket is not part of the model: the response headers are left out and
  \<open>wfile.write\<close> is taken to succeed (a failed write ends the handler, which
  unsubscribes its queue if it has one).
\<close>

definition sse_init :: "json_dumps \<Rightarrow> world \<Rightarrow> (error + string \<times> addr) \<times> world" where
  "sse_init dumps w =
     (case to_dict w of
        (Inl e, w1) \<Rightarrow> (Inl e, w1)
      | (Inr a, w1) \<Rightarrow>
          (case get_logs 200 w1 of
             (Inl e, w2) \<Rightarrow> (Inl e, w2)
           | (Inr b, w2) \<Rightarrow>
               (case alloc (ODict [(''state'', VRef a), (''logs'', VRef b)]) w2 of
                  (c, w3) \<Rightarrow>
                    (case dumps (heap w3) c of
                       Inl e \<Rightarrow> (Inl e, w3)
                     | Inr init_data \<Rightarrow>
                         (case subscribe w3 of
                            (q, w4) \<Rightarrow> (Inr (sse_frame ''init'' init_data, q), w4))))))"

text \<open>
  One turn of the \<open>while True\<close> loop: the bytes handed to \<open>wfile.write\<close>. \<open>Empty\<close> is
  caught and answered with the keepalive; another exception leaves the loop.
\<close>

definition sse_iter :: "addr \<Rightarrow> world \<Rightarrow> (error + string) \<times> world" where
  "sse_iter q w =
     (case queue_get q (heap w) of
        Inr ((event_type, data), h) \<Rightarrow> (Inr (sse_frame event_type data), w\<lparr>heap := h\<rparr>)
      | Inl Empty \<Rightarrow> (Inr keepalive_frame, w)
      | Inl e \<Rightarrow> (Inl e, w))"

section \<open>Runs of the program\<close>

text \<open>
  The calls the bot thread and the connection handlers make on the shared state, one
  at a time (the lock serialises them). An exception ends the call; the state is as
  the call left it and the next call goes on from there.
\<close>

datatype op =
    AddLog string
  | Notify
  | SetAttr string pyval
  | Subscribe
  | Unsubscribe addr
  | Drain addr
  | GetLogs int
  | ToDict
  | Connect

fun step :: "json_dumps \<Rightarrow> op \<Rightarrow> world \<Rightarrow> world" where
  "step dumps (AddLog line) w = snd (add_log line w)"
| "step dumps Notify w = snd (notify dumps w)"
| "step dumps (SetAttr k v) w = setattr k v w"
| "step dumps Subscribe w = snd (subscribe w)"
| "step dumps (Unsubscribe q) w = unsubscribe q w"
| "step dumps (Drain q) w = snd (sse_iter q w)"
| "step dumps (GetLogs n) w = snd (get_logs n w)"
| "step dumps ToDict w = snd (to_dict w)"
| "step dumps Connect w = snd (sse_init dumps w)"

fun run :: "json_dumps \<Rightarrow> op list \<Rightarrow> world \<Rightarrow> world" where
  "run dumps [] w = w"
| "run dumps (x # xs) w = run dumps xs (step dumps x w)"

text \<open>A sequence of \<open>add_log\<close> calls, stopping at the first that raises.\<close>

fun add_logs :: "string list \<Rightarrow> world \<Rightarrow> (error + unit) \<times> world" where
  "add_logs [] w = (Inr (), w)"
| "add_logs (line # lines) w =
     (case add_log line w of
        (Inl e, w') \<Rightarrow> (Inl e, w')
      | (Inr u, w') \<Rightarrow> add_logs lines w')"

section \<open>Observations\<close>

definition is_list :: "pyobj list \<Rightarrow> addr \<Rightarrow> bool" where
  "is_list h a = (case hget h a of Some (OList xs) \<Rightarrow> True | _ \<Rightarrow> False)"

definition is_queue :: "pyobj list \<Rightarrow> addr \<Rightarrow> bool" where
  "is_queue h q = (case hget h q of Some (OQueue mx items) \<Rightarrow> True | _ \<Rightarrow> False)"

text \<open>The condition under which \<open>put_nowait\<close> raises \<open>Full\<close>.\<close>

definition is_full :: "pyobj list \<Rightarrow> addr \<Rightarrow> bool" where
  "is_full h q =
     (case hget h q of
        Some (OQueue mx items) \<Rightarrow> 0 < mx \<and> mx \<le> int (length items)
      | _ \<Rightarrow> False)"

definition queue_items :: "pyobj list \<Rightarrow> addr \<Rightarrow> msg list" where
  "queue_items h q = (case hget h q of Some (OQueue mx items) \<Rightarrow> items | _ \<Rightarrow> [])"

text \<open>The content of the list \<open>self._log_lines\<close> refers to.\<close>

definition log_buffer :: "world \<Rightarrow> pyval list option" where
  "log_buffer w = (case hget (heap w) (log_lines w) of Some (OList xs) \<Rightarrow> Some xs | _ \<Rightarrow> None)"

text \<open>
  What holds of the state between calls: \<open>_log_lines\<close> refers to a list, the registry
  lists queues and lists none twice (\<open>subscribe\<close> registers a queue it has just
  created), and the declared fields are set.
\<close>

definition well_formed :: "world \<Rightarrow> bool" where
  "well_formed w =
     (is_list (heap w) (log_lines w) \<and>
      list_all (is_queue (heap w)) (subscribers w) \<and>
      distinct (subscribers w) \<and>
      list_all (\<lambda>k. attrs w k \<noteq> None) field_names)"

text \<open>
  What a call may change in the store: it may create objects, rebind \<open>_log_lines\<close> to
  a new object, and write to the log list and to queues; every other object stays.
\<close>

definition extends :: "world \<Rightarrow> world \<Rightarrow> bool" where
  "extends w w' =
     (length (heap w) \<le> length (heap w') \<and>
      (log_lines w' = log_lines w \<or> length (heap w) \<le> log_lines w') \<and>
      (\<forall>a. a \<noteq> log_lines w \<and> \<not> is_queue (heap w) a \<and> a < length (heap w)
            \<longrightarrow> hget (heap w') a = hget (heap w) a) \<and>
      (\<forall>a. is_queue (heap w) a \<longrightarrow> is_queue (heap w') a))"

text \<open>
  A call that leaves the registry and every queue as they are (it may create objects
  and write to the log list).
\<close>

definition quiet :: "world \<Rightarrow> world \<Rightarrow> bool" where
  "quiet w w' =
     (extends w w' \<and> subscribers w' = subscribers w \<and>
      max_log_lines w' = max_log_lines w \<and>
      (\<forall>q. is_queue (heap w) q \<longrightarrow> hget (heap w') q = hget (heap w) q) \<and>
      (well_formed w \<longrightarrow> well_formed w'))"

text \<open>The message a call publishes through \<open>_send_event\<close>, if it gets that far.\<close>

fun op_event :: "json_dumps \<Rightarrow> op \<Rightarrow> world \<Rightarrow> msg option" where
  "op_event dumps (AddLog line) w =
     (if is_list (heap w) (log_lines w) then Some (''log'', line) else None)"
| "op_event dumps Notify w =
     (case to_dict w of
        (Inl e, w1) \<Rightarrow> None
      | (Inr a, w1) \<Rightarrow> (case dumps (heap w1) a of Inl e \<Rightarrow> None | Inr s \<Rightarrow> Some (''state'', s)))"
| "op_event dumps x w = None"

text \<open>The messages published during a run, in order.\<close>

fun published :: "json_dumps \<Rightarrow> op list \<Rightarrow> world \<Rightarrow> msg list" where
  "published dumps [] w = []"
| "published dumps (x # xs) w =
     (case op_event dumps x w of None \<Rightarrow> [] | Some m \<Rightarrow> [m]) @ published dumps xs (step dumps x w)"

text \<open>The messages the handler that holds queue \<open>q\<close> takes from it during a run, in order.\<close>

fun drained :: "json_dumps \<Rightarrow> addr \<Rightarrow> op list \<Rightarrow> world \<Rightarrow> msg list" where
  "drained dumps q [] w = []"
| "drained dumps q (x # xs) w =
     (if x = Drain q
      then (case queue_get q (heap w) of Inl e \<Rightarrow> [] | Inr (m, h) \<Rightarrow> [m])
      else []) @ drained dumps q xs (step dumps x w)"

text \<open>The frames that handler writes during a run, in order.\<close>

fun sse_output :: "json_dumps \<Rightarrow> addr \<Rightarrow> op list \<Rightarrow> world \<Rightarrow> string list" where
  "sse_output dumps q [] w = []"
| "sse_output dumps q (x # xs) w =
     (if x = Drain q
      then (case fst (sse_iter q w) of Inl e \<Rightarrow> [] | Inr bytes \<Rightarrow> [bytes])
      else []) @ sse_output dumps q xs (step dumps x w)"

text \<open>Queue \<open>q\<close> is not full before the run, after it, or between any two of its calls.\<close>

fun never_full :: "json_dumps \<Rightarrow> addr \<Rightarrow> op list \<Rightarrow> world \<Rightarrow> bool" where
  "never_full dumps q [] w = (\<not> is_full (heap w) q)"
| "never_full dumps q (x # xs) w =
     (\<not> is_full (heap w) q \<and> never_full dumps q xs (step dumps x w))"

text \<open>
  A state with two viewers connected after two log lines: the queue at address 3 is
  empty, the queue at address 4 holds 50 undrained messages.
\<close>

definition two_viewers :: world where
  "two_viewers =
     state0\<lparr>heap := [ODict [], OList [], OList [VStr ''a'', VStr ''b''],
                     OQueue 50 [], OQueue 50 (replicate 50 (''log'', ''x''))],
            subscribers := [3, 4]\<rparr>"



text \<open>The calls of a run that write a field write a public data name.\<close>

fun public_op :: "op \<Rightarrow> bool" where
  "public_op (SetAttr k v) = public_name k"
| "public_op x = True"

text \<open>A log line without a line break, and the calls of a run whose log lines are such.\<close>

definition single_line :: "string \<Rightarrow> bool" where
  "single_line s = (CHR 0x0A \<notin> set s \<and> CHR 0x0D \<notin> set s)"

fun single_line_op :: "op \<Rightarrow> bool" where
  "single_line_op (AddLog line) = single_line line"
| "single_line_op x = True"

text \<open>
  What the handler that holds queue \<open>q\<close> finds at each of its turns during a run: the
  oldest message in the queue, or nothing when the queue is empty.
\<close>

fun polls :: "json_dumps \<Rightarrow> addr \<Rightarrow> op list \<Rightarrow> world \<Rightarrow> msg option list" where
  "polls dumps q [] w = []"
| "polls dumps q (x # xs) w =
     (if x = Drain q
      then [case queue_items (heap w) q of [] \<Rightarrow> None | m # rest \<Rightarrow> Some m]
      else []) @ polls dumps q xs (step dumps x w)"

text \<open>
  The least that being JSON asks of a text: after white space it begins with a brace,
  a bracket, a double quote, a minus sign, a digit, or the first letter of \<open>true\<close>,
  \<open>false\<close> or \<open>null\<close>.
\<close>

definition json_start :: "string \<Rightarrow> bool" where
  "json_start s =
     (case dropWhile (\<lambda>c. c \<in> set [CHR 0x20, CHR 0x09, CHR 0x0A, CHR 0x0D]) s of
        [] \<Rightarrow> False
      | c # cs \<Rightarrow> c = CHR 0x22 \<or> c \<in> set ''{[-0123456789tfn'')"

section \<open>Store and queue lemmas\<close>

lemma hget_update: "hget (h[q := ob]) a = (if a = q \<and> q < length h then Some ob else hget h a)"
  by (simp add: hget_def)

lemma hget_append: "hget (h @ [ob]) a = (if a = length h then Some ob else hget h a)"
  by (auto simp: hget_def nth_append)

lemma is_queueE: "is_queue h q \<Longrightarrow> \<exists>mx items. hget h q = Some (OQueue mx items)"
  by (auto simp: is_queue_def split: option.splits pyobj.splits)

lemma put_all_spec:
  "list_all (is_queue h) qs \<Longrightarrow> distinct qs \<Longrightarrow>
   \<exists>h'. put_all m qs dead h = (Inr (dead @ filter (is_full h) qs), h') \<and>
        length h' = length h \<and>
        (\<forall>a. a \<notin> set qs \<longrightarrow> hget h' a = hget h a) \<and>
        (\<forall>q \<in> set qs. hget h' q =
            (if is_full h q then hget h q
             else (case hget h q of Some (OQueue mx items) \<Rightarrow> Some (OQueue mx (items @ [m])) | x \<Rightarrow> x)))"
proof (induction qs arbitrary: dead h)
  case Nil
  then show ?case by simp
next
  case (Cons q qs)
  from Cons.prems obtain mx items where q: "hget h q = Some (OQueue mx items)"
    by (auto dest: is_queueE)
  show ?case
  proof (cases "is_full h q")
    case True
    then have p: "put_nowait m q h = Inl Full" using q by (simp add: put_nowait_def is_full_def)
    from Cons.IH[of h "dead @ [q]"] Cons.prems obtain h' where
      h': "put_all m qs (dead @ [q]) h = (Inr ((dead @ [q]) @ filter (is_full h) qs), h')"
        "length h' = length h" "\<forall>a. a \<notin> set qs \<longrightarrow> hget h' a = hget h a"
        "\<forall>q \<in> set qs. hget h' q =
            (if is_full h q then hget h q
             else (case hget h q of Some (OQueue mx items) \<Rightarrow> Some (OQueue mx (items @ [m])) | x \<Rightarrow> x))"
      by auto
    show ?thesis using p h' True Cons.prems by auto
  next
    case False
    define h1 where "h1 = h[q := OQueue mx (items @ [m])]"
    have p: "put_nowait m q h = Inr h1" using q False
      by (auto simp: put_nowait_def is_full_def h1_def)
    have ql: "q < length h" using q by (auto simp: hget_def split: if_splits)
    have same: "\<And>a. a \<noteq> q \<Longrightarrow> hget h1 a = hget h a" by (simp add: h1_def hget_update)
    have iq: "\<And>a. a \<noteq> q \<Longrightarrow> is_queue h1 a = is_queue h a"
      by (simp add: is_queue_def same)
    have ifl: "\<And>a. a \<noteq> q \<Longrightarrow> is_full h1 a = is_full h a"
      by (simp add: is_full_def same)
    have nq: "\<And>a. a \<in> set qs \<Longrightarrow> a \<noteq> q" using Cons.prems by auto
    have qs1: "list_all (is_queue h1) qs" using Cons.prems nq iq
      by (simp add: list_all_iff)
    have full1: "filter (is_full h1) qs = filter (is_full h) qs"
      by (rule filter_cong) (simp_all add: nq ifl)
    from Cons.IH[OF qs1, of dead] Cons.prems obtain h' where
      h': "put_all m qs dead h1 = (Inr (dead @ filter (is_full h1) qs), h')"
        "length h' = length h1" "\<forall>a. a \<notin> set qs \<longrightarrow> hget h' a = hget h1 a"
        "\<forall>q \<in> set qs. hget h' q =
            (if is_full h1 q then hget h1 q
             else (case hget h1 q of Some (OQueue mx items) \<Rightarrow> Some (OQueue mx (items @ [m])) | x \<Rightarrow> x))"
      by auto
    have hq: "hget h' q = Some (OQueue mx (items @ [m]))"
      using h'(3) Cons.prems ql by (simp add: h1_def hget_update)
    have rest: "\<forall>q' \<in> set qs. hget h' q' =
            (if is_full h q' then hget h q'
             else (case hget h q' of Some (OQueue mx items) \<Rightarrow> Some (OQueue mx (items @ [m])) | x \<Rightarrow> x))"
    proof
      fix q' assume "q' \<in> set qs"
      then have "q' \<noteq> q" using Cons.prems by auto
      then show "hget h' q' =
            (if is_full h q' then hget h q'
             else (case hget h q' of Some (OQueue mx items) \<Rightarrow> Some (OQueue mx (items @ [m])) | x \<Rightarrow> x))"
        using h'(4) \<open>q' \<in> set qs\<close> same by (simp add: is_full_def)
    qed
    show ?thesis
      using p h'(1,2,3) full1 False hq rest q same
      by (auto simp: h1_def)
  qed
qed


lemma remove_dead_spec:
  "distinct subs \<Longrightarrow> distinct dead \<Longrightarrow> set dead \<subseteq> set subs \<Longrightarrow>
   remove_dead dead subs = (Inr (), filter (\<lambda>q. q \<notin> set dead) subs)"
proof (induction dead arbitrary: subs)
  case Nil
  then show ?case by simp
next
  case (Cons d dead)
  have r: "remove1 d subs = filter (\<lambda>q. q \<noteq> d) subs"
    using Cons.prems(1) by (simp add: distinct_remove1_removeAll removeAll_filter_not_eq) metis
  have "remove_dead dead (remove1 d subs) = (Inr (), filter (\<lambda>q. q \<notin> set dead) (remove1 d subs))"
    using Cons.prems by (intro Cons.IH) auto
  then show ?case using Cons.prems r by (auto simp: list_remove_def intro: filter_cong)
qed

lemma send_event_spec:
  assumes "list_all (is_queue (heap w)) (subscribers w)" and "distinct (subscribers w)"
  shows "\<exists>h'. send_event et d w =
            (Inr (), w\<lparr>heap := h', subscribers := filter (\<lambda>q. \<not> is_full (heap w) q) (subscribers w)\<rparr>) \<and>
        length h' = length (heap w) \<and>
        (\<forall>a. a \<notin> set (subscribers w) \<longrightarrow> hget h' a = hget (heap w) a) \<and>
        (\<forall>q \<in> set (subscribers w). hget h' q =
            (if is_full (heap w) q then hget (heap w) q
             else (case hget (heap w) q of
                     Some (OQueue mx items) \<Rightarrow> Some (OQueue mx (items @ [(et, d)])) | x \<Rightarrow> x)))"
proof -
  from put_all_spec[OF assms, of "(et, d)" "[]"] obtain h' where
    h': "put_all (et, d) (subscribers w) [] (heap w) = (Inr (filter (is_full (heap w)) (subscribers w)), h')"
      "length h' = length (heap w)"
      "\<forall>a. a \<notin> set (subscribers w) \<longrightarrow> hget h' a = hget (heap w) a"
      "\<forall>q \<in> set (subscribers w). hget h' q =
            (if is_full (heap w) q then hget (heap w) q
             else (case hget (heap w) q of
                     Some (OQueue mx items) \<Rightarrow> Some (OQueue mx (items @ [(et, d)])) | x \<Rightarrow> x))"
    by auto
  have rd: "remove_dead (filter (is_full (heap w)) (subscribers w)) (subscribers w) =
        (Inr (), filter (\<lambda>q. q \<notin> set (filter (is_full (heap w)) (subscribers w))) (subscribers w))"
    using assms(2) by (intro remove_dead_spec) auto
  have f: "filter (\<lambda>q. q \<notin> set (filter (is_full (heap w)) (subscribers w))) (subscribers w) =
        filter (\<lambda>q. \<not> is_full (heap w) q) (subscribers w)"
    by (rule filter_cong) auto
  show ?thesis using h' rd f by (auto simp: send_event_def)
qed


lemma list_not_queue: "is_list h a \<Longrightarrow> is_queue h a \<Longrightarrow> False"
  by (auto simp: is_list_def is_queue_def split: option.splits pyobj.splits)

lemma hget_Some_less: "hget h a = Some ob \<Longrightarrow> a < length h"
  by (auto simp: hget_def split: if_splits)

lemma is_queue_less: "is_queue h q \<Longrightarrow> q < length h"
  by (auto dest!: is_queueE hget_Some_less)

lemma extends_refl: "extends w w"
  by (simp add: extends_def)

lemma extends_trans:
  assumes "extends w w'" and "extends w' w''"
  shows "extends w w''"
proof -
  have keep: "hget (heap w'') a = hget (heap w) a"
    if a: "a \<noteq> log_lines w" "\<not> is_queue (heap w) a" "a < length (heap w)" for a
  proof -
    have 1: "hget (heap w') a = hget (heap w) a" using assms(1) a by (simp add: extends_def)
    have 2: "a \<noteq> log_lines w'" using assms(1) a by (auto simp: extends_def)
    have 3: "\<not> is_queue (heap w') a" using a(2) 1 by (simp add: is_queue_def)
    have 4: "a < length (heap w')" using assms(1) a(3) by (simp add: extends_def)
    have "hget (heap w'') a = hget (heap w') a" using assms(2) 2 3 4 by (simp add: extends_def)
    then show ?thesis using 1 by simp
  qed
  have "length (heap w) \<le> length (heap w'')" using assms by (simp add: extends_def)
  moreover have "log_lines w'' = log_lines w \<or> length (heap w) \<le> log_lines w''"
    using assms by (auto simp: extends_def)
  moreover have "\<forall>a. is_queue (heap w) a \<longrightarrow> is_queue (heap w'') a"
    using assms by (simp add: extends_def)
  ultimately show ?thesis using keep by (simp add: extends_def)
qed

lemma extends_alloc: "extends w (snd (alloc ob w))"
  by (auto simp: extends_def alloc_def hget_append is_queue_def hget_def nth_append)

lemma well_formed_alloc: "well_formed w \<Longrightarrow> well_formed (snd (alloc ob w))"
  by (auto simp: well_formed_def alloc_def list_all_iff is_list_def is_queue_def hget_def nth_append
      split: if_splits)

lemma send_event_wf:
  assumes "well_formed w"
  shows "\<exists>w'. send_event et d w = (Inr (), w') \<and> well_formed w' \<and> extends w w' \<and>
           attrs w' = attrs w \<and> log_lines w' = log_lines w \<and>
           max_log_lines w' = max_log_lines w \<and> length (heap w') = length (heap w) \<and>
           subscribers w' = filter (\<lambda>q. \<not> is_full (heap w) q) (subscribers w) \<and>
           (\<forall>a. a \<notin> set (subscribers w) \<longrightarrow> hget (heap w') a = hget (heap w) a) \<and>
           (\<forall>q \<in> set (subscribers w). hget (heap w') q =
              (if is_full (heap w) q then hget (heap w) q
               else (case hget (heap w) q of
                       Some (OQueue mx items) \<Rightarrow> Some (OQueue mx (items @ [(et, d)])) | x \<Rightarrow> x)))"
proof -
  have qs: "list_all (is_queue (heap w)) (subscribers w)" and ds: "distinct (subscribers w)"
    using assms by (simp_all add: well_formed_def)
  from send_event_spec[OF qs ds, of et d] obtain h' where
    h': "send_event et d w =
            (Inr (), w\<lparr>heap := h', subscribers := filter (\<lambda>q. \<not> is_full (heap w) q) (subscribers w)\<rparr>)"
      "length h' = length (heap w)"
      "\<forall>a. a \<notin> set (subscribers w) \<longrightarrow> hget h' a = hget (heap w) a"
      "\<forall>q \<in> set (subscribers w). hget h' q =
            (if is_full (heap w) q then hget (heap w) q
             else (case hget (heap w) q of
                     Some (OQueue mx items) \<Rightarrow> Some (OQueue mx (items @ [(et, d)])) | x \<Rightarrow> x))"
    by blast
  define w' where "w' = w\<lparr>heap := h', subscribers := filter (\<lambda>q. \<not> is_full (heap w) q) (subscribers w)\<rparr>"
  have isq: "\<And>q. q \<in> set (subscribers w) \<Longrightarrow> is_queue (heap w) q"
    using qs by (simp add: list_all_iff)
  have qs': "is_queue h' q" if q: "q \<in> set (subscribers w)" for q
  proof -
    obtain mx items where "hget (heap w) q = Some (OQueue mx items)"
      using isq[OF q] by (auto dest: is_queueE)
    then show ?thesis using h'(4) q by (auto simp: is_queue_def)
  qed
  have keepq: "is_queue h' a" if "is_queue (heap w) a" for a
  proof (cases "a \<in> set (subscribers w)")
    case True then show ?thesis by (rule qs')
  next
    case False then show ?thesis using h'(3) that by (simp add: is_queue_def)
  qed
  have notq: "a \<notin> set (subscribers w)" if "\<not> is_queue (heap w) a" for a
    using that isq by auto
  have "log_lines w \<notin> set (subscribers w)"
    using assms isq by (auto simp: well_formed_def dest: list_not_queue)
  then have "is_list h' (log_lines w)" using h'(3) assms by (simp add: well_formed_def is_list_def)
  then have wfw: "well_formed w'"
    using assms qs' ds by (auto simp: well_formed_def w'_def list_all_iff)
  have ext: "extends w w'"
    using h'(2,3) keepq notq by (simp add: extends_def w'_def)
  show ?thesis using h' wfw ext by (auto simp: w'_def)
qed

lemma add_log_pre:
  assumes "well_formed w"
  shows "\<exists>xs w2. log_buffer w = Some xs \<and> add_log line w = send_event ''log'' line w2 \<and>
           well_formed w2 \<and> extends w w2 \<and> subscribers w2 = subscribers w \<and>
           attrs w2 = attrs w \<and> max_log_lines w2 = max_log_lines w \<and>
           (\<forall>q. is_queue (heap w) q \<longrightarrow> hget (heap w2) q = hget (heap w) q) \<and>
           log_buffer w2 =
             Some (if max_log_lines w < int (length (xs @ [VStr line]))
                   then slice_from (- max_log_lines w) (xs @ [VStr line])
                   else xs @ [VStr line])"
proof -
  from assms obtain xs where xs: "hget (heap w) (log_lines w) = Some (OList xs)"
    by (auto simp: well_formed_def is_list_def split: option.splits pyobj.splits)
  define ys where "ys = xs @ [VStr line]"
  define w1 where "w1 = w\<lparr>heap := (heap w)[log_lines w := OList ys]\<rparr>"
  define w2 where "w2 = (if max_log_lines w1 < int (length ys)
                     then (case alloc (OList (slice_from (- max_log_lines w1) ys)) w1 of
                             (a, w') \<Rightarrow> w'\<lparr>log_lines := a\<rparr>)
                     else w1)"
  have al: "add_log line w = send_event ''log'' line w2"
    using xs by (simp add: add_log_def w2_def w1_def ys_def Let_def)
  have ll: "log_lines w < length (heap w)" using xs by (rule hget_Some_less)
  have subs2: "subscribers w2 = subscribers w"
    by (simp add: w2_def w1_def alloc_def)
  have isq: "\<And>q. q \<in> set (subscribers w) \<Longrightarrow> is_queue (heap w) q"
    using assms by (simp add: well_formed_def list_all_iff)
  have same: "hget (heap w2) a = hget (heap w) a" if "a \<noteq> log_lines w" "a < length (heap w)" for a
    using that by (auto simp: w2_def w1_def alloc_def hget_append hget_update)
  have notlog: "a \<noteq> log_lines w" if "is_queue (heap w) a" for a
    using assms that by (auto simp: well_formed_def dest: list_not_queue)
  have sameq: "hget (heap w2) q = hget (heap w) q" if "is_queue (heap w) q" for q
    using same[OF notlog[OF that] is_queue_less[OF that]] .
  have lb2: "hget (heap w2) (log_lines w2) =
     Some (OList (if max_log_lines w < int (length ys) then slice_from (- max_log_lines w) ys else ys))"
    using ll by (auto simp: w2_def w1_def alloc_def hget_append hget_update)
  have at2: "attrs w2 = attrs w" and mx2: "max_log_lines w2 = max_log_lines w"
    by (simp_all add: w2_def w1_def alloc_def)
  have len2: "length (heap w) \<le> length (heap w2)"
    by (simp add: w2_def w1_def alloc_def)
  have lg2: "log_lines w2 = log_lines w \<or> length (heap w) \<le> log_lines w2"
    by (simp add: w2_def w1_def alloc_def)
  have keepq: "is_queue (heap w2) q" if "is_queue (heap w) q" for q
    using that sameq[OF that] by (simp add: is_queue_def)
  have l2: "is_list (heap w2) (log_lines w2)" using lb2 by (simp add: is_list_def)
  have q2: "list_all (is_queue (heap w2)) (subscribers w2)"
    unfolding subs2 list_all_iff using isq keepq by blast
  have d2: "distinct (subscribers w2)" using assms by (simp add: subs2 well_formed_def)
  have f2: "list_all (\<lambda>k. attrs w2 k \<noteq> None) field_names"
    using assms by (simp add: at2 well_formed_def)
  have wf2: "well_formed w2"
    unfolding well_formed_def using l2 q2 d2 f2 by blast
  have ext: "extends w w2"
    unfolding extends_def using len2 lg2 same keepq by blast
  have "log_buffer w = Some xs" using xs by (simp add: log_buffer_def)
  moreover note at2 mx2
  moreover have "log_buffer w2 =
     Some (if max_log_lines w < int (length ys) then slice_from (- max_log_lines w) ys else ys)"
    using lb2 by (simp add: log_buffer_def)
  ultimately show ?thesis using al wf2 ext subs2 sameq isq unfolding ys_def by blast
qed

section \<open>The log buffer keeps the last 500 lines\<close>

lemma keep_last_append:
  "drop (length (drop (length ys - n) ys @ zs) - n) (drop (length ys - n) ys @ zs) =
   drop (length (ys @ zs) - n) (ys @ zs)"
proof (cases "length ys \<le> n")
  case True
  then show ?thesis by simp
next
  case False
  then have "length (drop (length ys - n) ys) = n" by simp
  then show ?thesis using False by (simp add: add.commute)
qed

lemma slice_from_neg: "0 < n \<Longrightarrow> n < int (length ys) \<Longrightarrow> slice_from (- n) ys = drop (length ys - nat n) ys"
  by (auto simp: slice_from_def nat_diff_distrib' intro: arg_cong[where f="\<lambda>k. drop k ys"])

lemma add_log_buffer:
  assumes "well_formed w" and "max_log_lines w = 500" and "log_buffer w = Some xs"
  shows "\<exists>w'. add_log line w = (Inr (), w') \<and> well_formed w' \<and> max_log_lines w' = 500 \<and>
           log_buffer w' = Some (drop (length (xs @ [VStr line]) - 500) (xs @ [VStr line]))"
proof -
  from add_log_pre[OF assms(1), of line] obtain xs' w2 where
    p: "log_buffer w = Some xs'" "add_log line w = send_event ''log'' line w2"
       "well_formed w2" "max_log_lines w2 = max_log_lines w"
       "log_buffer w2 =
             Some (if max_log_lines w < int (length (xs' @ [VStr line]))
                   then slice_from (- max_log_lines w) (xs' @ [VStr line])
                   else xs' @ [VStr line])"
    by blast
  have xs': "xs' = xs" using p(1) assms(3) by simp
  have b2: "log_buffer w2 = Some (drop (length (xs @ [VStr line]) - 500) (xs @ [VStr line]))"
    using p(5) assms(2) xs' by (simp add: slice_from_neg)
  from send_event_wf[OF p(3), of "''log''" line] obtain w' where
    s: "send_event ''log'' line w2 = (Inr (), w')" "well_formed w'"
       "log_lines w' = log_lines w2" "max_log_lines w' = max_log_lines w2"
       "\<forall>a. a \<notin> set (subscribers w2) \<longrightarrow> hget (heap w') a = hget (heap w2) a"
    by blast
  have "log_lines w2 \<notin> set (subscribers w2)"
    using p(3) by (auto simp: well_formed_def list_all_iff dest: list_not_queue)
  then have "log_buffer w' = log_buffer w2" using s(3,5) by (simp add: log_buffer_def)
  then show ?thesis using p(2,4) s(1,2,4) b2 assms(2) by simp
qed

lemma add_logs_buffer:
  "well_formed w \<Longrightarrow> max_log_lines w = 500 \<Longrightarrow> log_buffer w = Some xs \<Longrightarrow>
   length xs \<le> 500 \<Longrightarrow>
   \<exists>w'. add_logs ls w = (Inr (), w') \<and> well_formed w' \<and> max_log_lines w' = 500 \<and>
        log_buffer w' = Some (drop (length (xs @ map VStr ls) - 500) (xs @ map VStr ls))"
proof (induction ls arbitrary: w xs)
  case Nil
  then show ?case by simp
next
  case (Cons l ls)
  from add_log_buffer[OF Cons.prems(1,2,3), of l] obtain w1 where
    w1: "add_log l w = (Inr (), w1)" "well_formed w1" "max_log_lines w1 = 500"
        "log_buffer w1 = Some (drop (length (xs @ [VStr l]) - 500) (xs @ [VStr l]))"
    by blast
  have "length (drop (length (xs @ [VStr l]) - 500) (xs @ [VStr l])) \<le> 500" by simp
  from Cons.IH[OF w1(2,3,4) this] obtain w' where
    w': "add_logs ls w1 = (Inr (), w')" "well_formed w'" "max_log_lines w' = 500"
        "log_buffer w' = Some (drop (length (drop (length (xs @ [VStr l]) - 500) (xs @ [VStr l]) @ map VStr ls) - 500)
             (drop (length (xs @ [VStr l]) - 500) (xs @ [VStr l]) @ map VStr ls))"
    by blast
  have "log_buffer w' = Some (drop (length (xs @ map VStr (l # ls)) - 500) (xs @ map VStr (l # ls)))"
    using w'(4) keep_last_append[of "xs @ [VStr l]" 500 "map VStr ls"] by simp
  then show ?case using w1(1) w'(1,2,3) by simp
qed

lemma well_formed_state0: "well_formed state0"
  by (simp add: well_formed_def state0_def class_defaults_def is_list_def hget_def field_names_def)

text \<open>
  Claim C5. Starting from an empty log buffer with the default bound of 500, any
  sequence of \<open>add_log\<close> calls returns normally and leaves a buffer of at most 500
  entries: the last \<open>min (number of calls) 500\<close> lines, in the order they were appended.
\<close>

theorem log_buffer_keeps_last_500:
  assumes "well_formed w" and "max_log_lines w = 500" and "log_buffer w = Some []"
  shows "fst (add_logs ls w) = Inr () \<and>
         (\<exists>buf. log_buffer (snd (add_logs ls w)) = Some buf \<and>
                length buf \<le> 500 \<and> length buf = min (length ls) 500 \<and>
                buf = map VStr (drop (length ls - 500) ls))"
proof -
  from add_logs_buffer[OF assms, of ls] obtain w' where
    w': "add_logs ls w = (Inr (), w')"
        "log_buffer w' = Some (drop (length ls - 500) (map VStr ls))"
    by auto
  show ?thesis using w' by (auto simp: drop_map)
qed

theorem log_buffer_keeps_last_500_witness:
  "well_formed state0 \<and> max_log_lines state0 = 500 \<and> log_buffer state0 = Some [] \<and>
   fst (add_logs [''a'', ''b''] state0) = Inr () \<and>
   log_buffer (snd (add_logs [''a'', ''b''] state0)) = Some [VStr ''a'', VStr ''b'']"
proof -
  have a: "well_formed state0" by (rule well_formed_state0)
  have b: "max_log_lines state0 = 500" by (simp add: state0_def)
  have c: "log_buffer state0 = Some []" by (simp add: state0_def log_buffer_def hget_def)
  show ?thesis using log_buffer_keeps_last_500[OF a b c, of "[''a'', ''b'']"] a b c by auto
qed

text \<open>
  For a positive \<open>n\<close>, \<open>get_logs n\<close> returns a new list holding the last
  \<open>min n (length of the buffer)\<close> lines, oldest first.
\<close>

lemma get_logs_last_n:
  assumes "log_buffer w = Some xs" and "0 < n"
  shows "\<exists>w'. get_logs n w = (Inr (length (heap w)), w') \<and>
          hget (heap w') (length (heap w)) = Some (OList (drop (length xs - nat n) xs)) \<and>
          length (drop (length xs - nat n) xs) = min (nat n) (length xs)"
  using assms
  by (auto simp: get_logs_def log_buffer_def alloc_def hget_append slice_from_def nat_diff_distrib'
      split: option.splits pyobj.splits intro: arg_cong[where f="\<lambda>k. drop k xs"])

text \<open>
  Claim C4. \<open>get_logs n\<close> is to return the last \<open>min n (length of the buffer)\<close>
  lines, so none for \<open>n = 0\<close>. The code slices with \<open>[-last_n:]\<close>, and \<open>-0\<close> is the
  start of the list: with the buffer \<open>["a", "b"]\<close>, \<open>get_logs(0)\<close> returns both lines.
\<close>

theorem get_logs_zero_returns_whole_buffer:
  "fst (get_logs 0 (snd (add_logs [''a'', ''b''] state0))) = Inr 3 \<and>
   hget (heap (snd (get_logs 0 (snd (add_logs [''a'', ''b''] state0))))) 3 =
     Some (OList [VStr ''a'', VStr ''b''])"
  by (simp add: state0_def add_log_def get_logs_def hget_def send_event_def alloc_def slice_from_def)

section \<open>Every call keeps the state well-formed\<close>

lemma quiet_refl: "quiet w w"
  by (simp add: quiet_def extends_refl)

lemma quiet_trans:
  assumes "quiet w w'" and "quiet w' w''"
  shows "quiet w w''"
proof -
  have e: "extends w w''" using assms by (auto simp: quiet_def intro: extends_trans)
  have q: "hget (heap w'') q = hget (heap w) q" if "is_queue (heap w) q" for q
  proof -
    have 1: "hget (heap w') q = hget (heap w) q" using assms(1) that by (simp add: quiet_def)
    then have "is_queue (heap w') q" using that by (simp add: is_queue_def)
    then have "hget (heap w'') q = hget (heap w') q" using assms(2) by (simp add: quiet_def)
    then show ?thesis using 1 by simp
  qed
  show ?thesis unfolding quiet_def using e q assms by (auto simp: quiet_def)
qed

lemma quiet_alloc: "quiet w (snd (alloc ob w))"
proof -
  have "\<And>q. is_queue (heap w) q \<Longrightarrow> hget (heap w @ [ob]) q = hget (heap w) q"
    by (auto dest!: is_queue_less simp: hget_append)
  then show ?thesis
    using extends_alloc[of w ob] well_formed_alloc[of w ob]
    by (simp add: quiet_def) (simp add: alloc_def)
qed

lemma quiet_to_dict: "quiet w (snd (to_dict w))"
proof (cases "getattrs (attrs w) field_names")
  case (Inl e)
  then show ?thesis by (simp add: to_dict_def quiet_refl)
next
  case (Inr kvs)
  then have "snd (to_dict w) = snd (alloc (ODict kvs) w)"
    by (simp add: to_dict_def split: prod.splits)
  then show ?thesis by (simp add: quiet_alloc)
qed

lemma quiet_get_logs: "quiet w (snd (get_logs n w))"
proof (cases "\<exists>xs. hget (heap w) (log_lines w) = Some (OList xs)")
  case True
  then obtain xs :: "pyval list" where "hget (heap w) (log_lines w) = Some (OList xs)" by blast
  then have "snd (get_logs n w) = snd (alloc (OList (slice_from (- n) xs)) w)"
    by (simp add: get_logs_def split: prod.splits)
  then show ?thesis by (simp add: quiet_alloc)
next
  case False
  then have "snd (get_logs n w) = w"
    by (auto simp: get_logs_def split: option.splits pyobj.splits)
  then show ?thesis by (simp add: quiet_refl)
qed

lemma quiet_setattr: "quiet w (setattr k v w)"
  by (auto simp: quiet_def setattr_def extends_def well_formed_def list_all_iff)

lemma add_log_quiet:
  assumes "well_formed w"
  shows "\<exists>w2. add_log line w = send_event ''log'' line w2 \<and> quiet w w2 \<and> well_formed w2"
proof -
  from add_log_pre[OF assms, of line] obtain w2 where
    p: "add_log line w = send_event ''log'' line w2" "well_formed w2" "extends w w2"
       "subscribers w2 = subscribers w" "max_log_lines w2 = max_log_lines w"
       "\<forall>q. is_queue (heap w) q \<longrightarrow> hget (heap w2) q = hget (heap w) q"
    by blast
  then have "quiet w w2" by (simp add: quiet_def)
  then show ?thesis using p by blast
qed

lemma subscribe_spec:
  assumes "well_formed w"
  shows "fst (subscribe w) = length (heap w) \<and>
         well_formed (snd (subscribe w)) \<and> extends w (snd (subscribe w)) \<and>
         subscribers (snd (subscribe w)) = subscribers w @ [length (heap w)] \<and>
         heap (snd (subscribe w)) = heap w @ [OQueue 50 []] \<and>
         attrs (snd (subscribe w)) = attrs w \<and> log_lines (snd (subscribe w)) = log_lines w \<and>
         max_log_lines (snd (subscribe w)) = max_log_lines w"
proof -
  have s: "snd (subscribe w) = w\<lparr>heap := heap w @ [OQueue 50 []],
                                  subscribers := subscribers w @ [length (heap w)]\<rparr>"
    by (simp add: subscribe_def alloc_def)
  have isq: "\<And>q. q \<in> set (subscribers w) \<Longrightarrow> is_queue (heap w) q"
    using assms by (simp add: well_formed_def list_all_iff)
  have lt: "\<And>q. q \<in> set (subscribers w) \<Longrightarrow> q < length (heap w)"
    using isq by (auto dest: is_queue_less)
  have keep: "\<And>a. a < length (heap w) \<Longrightarrow> hget (heap w @ [OQueue 50 []]) a = hget (heap w) a"
    by (simp add: hget_append)
  have keepq: "is_queue (heap w @ [OQueue 50 []]) a" if "is_queue (heap w) a" for a
    using keep[OF is_queue_less[OF that]] that by (simp add: is_queue_def)
  have new: "is_queue (heap w @ [OQueue 50 []]) (length (heap w))"
    by (simp add: is_queue_def hget_append)
  have l: "is_list (heap w @ [OQueue 50 []]) (log_lines w)"
  proof -
    have "is_list (heap w) (log_lines w)" using assms by (simp add: well_formed_def)
    moreover then have "log_lines w < length (heap w)"
      by (auto simp: is_list_def hget_def split: if_splits)
    ultimately show ?thesis using keep by (simp add: is_list_def)
  qed
  have d: "distinct (subscribers w @ [length (heap w)])"
    using assms lt by (auto simp: well_formed_def)
  have q: "list_all (is_queue (heap w @ [OQueue 50 []])) (subscribers w @ [length (heap w)])"
    using isq keepq new by (simp add: list_all_iff)
  have f: "list_all (\<lambda>k. attrs w k \<noteq> None) field_names"
    using assms by (simp add: well_formed_def)
  have wfw: "well_formed (snd (subscribe w))"
    unfolding s well_formed_def using l d q f by simp
  have ext: "extends w (snd (subscribe w))"
    unfolding s extends_def using keep keepq by simp
  show ?thesis using wfw ext by (simp add: s) (simp add: subscribe_def alloc_def)
qed

lemma unsubscribe_spec:
  assumes "well_formed w"
  shows "well_formed (unsubscribe q w) \<and> extends w (unsubscribe q w) \<and>
         heap (unsubscribe q w) = heap w \<and>
         subscribers (unsubscribe q w) = remove1 q (subscribers w) \<and>
         set (subscribers (unsubscribe q w)) = set (subscribers w) - {q}"
proof -
  have s: "unsubscribe q w = w\<lparr>subscribers := remove1 q (subscribers w)\<rparr>"
    by (simp add: unsubscribe_def remove1_idem)
  have d: "distinct (subscribers w)" using assms by (simp add: well_formed_def)
  have "list_all (is_queue (heap w)) (remove1 q (subscribers w))"
    using assms by (auto simp: well_formed_def list_all_iff dest: notin_set_remove1)
  then have "well_formed (unsubscribe q w)"
    using assms unfolding s well_formed_def by simp
  moreover have "extends w (unsubscribe q w)" unfolding s extends_def by simp
  ultimately show ?thesis using d by (simp add: s)
qed

lemma sse_iter_heap:
  "heap (snd (sse_iter q w)) =
     (case hget (heap w) q of
        Some (OQueue mx (m # rest)) \<Rightarrow> (heap w)[q := OQueue mx rest]
      | _ \<Rightarrow> heap w)"
  by (auto simp: sse_iter_def queue_get_def split: option.splits pyobj.splits list.splits error.splits)

lemma sse_iter_rest:
  "attrs (snd (sse_iter q w)) = attrs w \<and> log_lines (snd (sse_iter q w)) = log_lines w \<and>
   max_log_lines (snd (sse_iter q w)) = max_log_lines w \<and>
   subscribers (snd (sse_iter q w)) = subscribers w"
  by (auto simp: sse_iter_def split: sum.splits error.splits prod.splits)

lemma sse_iter_hget:
  "hget (heap (snd (sse_iter q w))) a =
     (if a = q then (case hget (heap w) q of
                       Some (OQueue mx items) \<Rightarrow> Some (OQueue mx (tl items))
                     | x \<Rightarrow> x)
      else hget (heap w) a)"
  by (auto simp: sse_iter_heap hget_update split: option.splits pyobj.splits list.splits
      dest: hget_Some_less)

lemma sse_iter_wf:
  assumes "well_formed w"
  shows "well_formed (snd (sse_iter q w)) \<and> extends w (snd (sse_iter q w))"
proof -
  let ?w = "snd (sse_iter q w)"
  have same: "\<And>a. \<not> is_queue (heap w) a \<Longrightarrow> hget (heap ?w) a = hget (heap w) a"
    by (auto simp: sse_iter_hget is_queue_def split: option.splits pyobj.splits)
  have keepq: "\<And>a. is_queue (heap w) a \<Longrightarrow> is_queue (heap ?w) a"
    by (auto simp: sse_iter_hget is_queue_def split: option.splits pyobj.splits)
  have len: "length (heap ?w) = length (heap w)"
    by (auto simp: sse_iter_heap split: option.splits pyobj.splits list.splits)
  have "\<not> is_queue (heap w) (log_lines w)"
    using assms by (auto simp: well_formed_def dest: list_not_queue)
  then have l: "is_list (heap ?w) (log_lines ?w)"
    using assms same by (simp add: sse_iter_rest well_formed_def is_list_def)
  have q: "list_all (is_queue (heap ?w)) (subscribers ?w)"
    using assms keepq by (simp add: sse_iter_rest well_formed_def list_all_iff)
  have "well_formed ?w"
    unfolding well_formed_def using l q assms by (simp add: sse_iter_rest well_formed_def)
  moreover have "extends w ?w"
    unfolding extends_def using same keepq len by (simp add: sse_iter_rest)
  ultimately show ?thesis by simp
qed

lemma quiet_wf: "quiet w w' \<Longrightarrow> well_formed w \<Longrightarrow> well_formed w'"
  by (simp add: quiet_def)

lemma op_event_AddLog: "well_formed w \<Longrightarrow> op_event dumps (AddLog line) w = Some (''log'', line)"
  by (simp add: well_formed_def)

lemma publishing_step:
  assumes "well_formed w" and "x = AddLog line \<or> x = Notify"
  shows "\<exists>w1. quiet w w1 \<and>
           step dumps x w =
             (case op_event dumps x w of
                None \<Rightarrow> w1
              | Some m \<Rightarrow> snd (send_event (fst m) (snd m) w1))"
proof (cases "x = Notify")
  case False
  then have x: "x = AddLog line" using assms(2) by simp
  from add_log_quiet[OF assms(1), of line] obtain w2 where
    "add_log line w = send_event ''log'' line w2" "quiet w w2" by blast
  then show ?thesis using x op_event_AddLog[OF assms(1)] by auto
next
  case True
  obtain r w1 where t: "to_dict w = (r, w1)" by (cases "to_dict w")
  have q: "quiet w w1" using quiet_to_dict[of w] t by simp
  show ?thesis
  proof (cases r)
    case (Inl e)
    then show ?thesis using True t q by (auto simp: notify_def)
  next
    case (Inr a)
    then show ?thesis using True t q
      by (cases "dumps (heap w1) a") (auto simp: notify_def)
  qed
qed

lemma publish_after_quiet:
  assumes "well_formed w" and "quiet w w1"
  shows "well_formed (snd (send_event et d w1)) \<and> extends w (snd (send_event et d w1)) \<and>
         subscribers (snd (send_event et d w1)) =
           filter (\<lambda>q. \<not> is_full (heap w) q) (subscribers w) \<and>
         (\<forall>q mx items. hget (heap w) q = Some (OQueue mx items) \<longrightarrow>
            hget (heap (snd (send_event et d w1))) q =
              Some (OQueue mx (if q \<in> set (subscribers w) \<and> \<not> is_full (heap w) q
                               then items @ [(et, d)] else items)))"
proof -
  have wf1: "well_formed w1" using assms by (rule quiet_wf[rotated])
  have s1: "subscribers w1 = subscribers w" using assms(2) by (simp add: quiet_def)
  have h1: "\<And>q. is_queue (heap w) q \<Longrightarrow> hget (heap w1) q = hget (heap w) q"
    using assms(2) by (simp add: quiet_def)
  from send_event_wf[OF wf1, of et d] obtain w' where
    w': "send_event et d w1 = (Inr (), w')" "well_formed w'" "extends w1 w'"
        "subscribers w' = filter (\<lambda>q. \<not> is_full (heap w1) q) (subscribers w1)"
        "\<forall>a. a \<notin> set (subscribers w1) \<longrightarrow> hget (heap w') a = hget (heap w1) a"
        "\<forall>q \<in> set (subscribers w1). hget (heap w') q =
              (if is_full (heap w1) q then hget (heap w1) q
               else (case hget (heap w1) q of
                       Some (OQueue mx items) \<Rightarrow> Some (OQueue mx (items @ [(et, d)])) | x \<Rightarrow> x))"
    by blast
  have isq: "\<And>q. q \<in> set (subscribers w) \<Longrightarrow> is_queue (heap w) q"
    using assms(1) by (simp add: well_formed_def list_all_iff)
  have full: "\<And>q. is_queue (heap w) q \<Longrightarrow> is_full (heap w1) q = is_full (heap w) q"
    using h1 by (simp add: is_full_def)
  have f: "filter (\<lambda>q. \<not> is_full (heap w1) q) (subscribers w) =
           filter (\<lambda>q. \<not> is_full (heap w) q) (subscribers w)"
    by (rule filter_cong) (simp_all add: full isq)
  have e: "extends w w'"
    using assms(2) w'(3) by (auto simp: quiet_def intro: extends_trans)
  have hq: "hget (heap w') q =
              Some (OQueue mx (if q \<in> set (subscribers w) \<and> \<not> is_full (heap w) q
                               then items @ [(et, d)] else items))"
    if q: "hget (heap w) q = Some (OQueue mx items)" for q mx items
  proof -
    have iq: "is_queue (heap w) q" using q by (simp add: is_queue_def)
    have q1: "hget (heap w1) q = Some (OQueue mx items)" using h1[OF iq] q by simp
    show ?thesis
    proof (cases "q \<in> set (subscribers w)")
      case True
      then show ?thesis using w'(6) s1 q1 full[OF iq] by simp
    next
      case False
      then show ?thesis using w'(5) s1 q1 by simp
    qed
  qed
  show ?thesis using w'(1,2,4) e f hq by (simp add: s1)
qed

lemma sse_init_spec:
  assumes "well_formed w"
  shows "\<exists>w3. quiet w w3 \<and>
           ((\<exists>e. sse_init dumps w = (Inl e, w3)) \<or>
            (\<exists>init_data. sse_init dumps w =
                (Inr (sse_frame ''init'' init_data, length (heap w3)), snd (subscribe w3))))"
proof -
  obtain r1 w1 where t: "to_dict w = (r1, w1)" by (cases "to_dict w")
  have q1: "quiet w w1" using quiet_to_dict[of w] t by simp
  show ?thesis
  proof (cases r1)
    case (Inl e)
    then show ?thesis using t q1 by (auto simp: sse_init_def)
  next
    case (Inr a)
    obtain r2 w2 where g: "get_logs 200 w1 = (r2, w2)" by (cases "get_logs 200 w1")
    have q2: "quiet w w2" using quiet_get_logs[of w1 200] g q1 by (auto intro: quiet_trans)
    show ?thesis
    proof (cases r2)
      case (Inl e)
      then show ?thesis using t Inr g q2 by (auto simp: sse_init_def)
    next
      case b: (Inr b)
      define w3 where "w3 = snd (alloc (ODict [(''state'', VRef a), (''logs'', VRef b)]) w2)"
      have al: "alloc (ODict [(''state'', VRef a), (''logs'', VRef b)]) w2 = (length (heap w2), w3)"
        by (simp add: w3_def alloc_def)
      have q3: "quiet w w3" using quiet_alloc[of w2] q2 unfolding w3_def by (auto intro: quiet_trans)
      obtain w4 where sub: "subscribe w3 = (length (heap w3), w4)"
        by (simp add: subscribe_def alloc_def)
      show ?thesis
      proof (cases "dumps (heap w3) (length (heap w2))")
        case (Inl e)
        then show ?thesis using t Inr g b al q3 by (auto simp: sse_init_def)
      next
        case (Inr init_data)
        then have "sse_init dumps w =
            (Inr (sse_frame ''init'' init_data, length (heap w3)), snd (subscribe w3))"
          using t \<open>r1 = Inr a\<close> g b al sub by (simp add: sse_init_def)
        then show ?thesis using q3 by blast
      qed
    qed
  qed
qed

lemma quiet_step:
  assumes "well_formed w" and "quiet w w'"
  shows "well_formed w' \<and> extends w w'"
  using assms by (simp add: quiet_def)

lemma step_wf:
  assumes "well_formed w"
  shows "well_formed (step dumps x w) \<and> extends w (step dumps x w)"
proof (cases x)
  case (AddLog line)
  from publishing_step[OF assms, of x line dumps] AddLog obtain w1 where
    w1: "quiet w w1" "step dumps x w =
             (case op_event dumps x w of None \<Rightarrow> w1
              | Some m \<Rightarrow> snd (send_event (fst m) (snd m) w1))"
    by blast
  show ?thesis
    using w1 quiet_step[OF assms w1(1)] publish_after_quiet[OF assms w1(1)]
    by (cases "op_event dumps x w") simp_all
next
  case Notify
  from publishing_step[OF assms, of x undefined dumps] Notify obtain w1 where
    w1: "quiet w w1" "step dumps x w =
             (case op_event dumps x w of None \<Rightarrow> w1
              | Some m \<Rightarrow> snd (send_event (fst m) (snd m) w1))"
    by blast
  show ?thesis
    using w1 quiet_step[OF assms w1(1)] publish_after_quiet[OF assms w1(1)]
    by (cases "op_event dumps x w") simp_all
next
  case (SetAttr k v)
  then show ?thesis using quiet_step[OF assms quiet_setattr] by simp
next
  case Subscribe
  then show ?thesis using subscribe_spec[OF assms] by simp
next
  case (Unsubscribe q)
  then show ?thesis using unsubscribe_spec[OF assms] by simp
next
  case (Drain q)
  then show ?thesis using sse_iter_wf[OF assms] by simp
next
  case (GetLogs n)
  then show ?thesis using quiet_step[OF assms quiet_get_logs] by simp
next
  case ToDict
  then show ?thesis using quiet_step[OF assms quiet_to_dict] by simp
next
  case Connect
  from sse_init_spec[OF assms, of dumps] obtain w3 where
    w3: "quiet w w3"
        "(\<exists>e. sse_init dumps w = (Inl e, w3)) \<or>
         (\<exists>init_data. sse_init dumps w =
             (Inr (sse_frame ''init'' init_data, length (heap w3)), snd (subscribe w3)))"
    by blast
  have a: "well_formed w3" "extends w w3" using quiet_step[OF assms w3(1)] by simp_all
  have b: "well_formed (snd (subscribe w3))" "extends w (snd (subscribe w3))"
    using subscribe_spec[OF a(1)] a(2) by (auto intro: extends_trans)
  show ?thesis using Connect w3(2) a b by auto
qed

lemma run_wf: "well_formed w \<Longrightarrow> well_formed (run dumps ops w)"
  by (induction ops arbitrary: w) (simp_all add: step_wf)

lemma run_extends: "well_formed w \<Longrightarrow> extends w (run dumps ops w)"
proof (induction ops arbitrary: w)
  case Nil
  then show ?case by (simp add: extends_refl)
next
  case (Cons x xs)
  have "extends w (step dumps x w)" "well_formed (step dumps x w)"
    using step_wf[OF Cons.prems] by simp_all
  then show ?case using Cons.IH[of "step dumps x w"] by (auto intro: extends_trans)
qed

lemma step_queue:
  assumes "well_formed w" and "hget (heap w) q = Some (OQueue mx items)"
  shows "hget (heap (step dumps x w)) q =
           Some (OQueue mx
             (if x = Drain q then tl items
              else if q \<in> set (subscribers w) \<and> \<not> is_full (heap w) q
              then items @ (case op_event dumps x w of None \<Rightarrow> [] | Some m \<Rightarrow> [m])
              else items)) \<and>
         (q \<in> set (subscribers (step dumps x w))) =
           (q \<in> set (subscribers w) \<and> x \<noteq> Unsubscribe q \<and>
            (op_event dumps x w = None \<or> \<not> is_full (heap w) q))"
proof -
  have iq: "is_queue (heap w) q" using assms(2) by (simp add: is_queue_def)
  have lt: "q < length (heap w)" using assms(2) by (rule hget_Some_less)
  have quiet_case: "?thesis"
    if "quiet w (step dumps x w)" "op_event dumps x w = None" "x \<noteq> Drain q" "x \<noteq> Unsubscribe q"
    using that iq assms(2) by (simp add: quiet_def)
  have pub_case: "?thesis" if xx: "x = AddLog line \<or> x = Notify" for line
  proof -
    from publishing_step[OF assms(1) xx, of dumps] obtain w1 where
      w1: "quiet w w1" "step dumps x w =
             (case op_event dumps x w of None \<Rightarrow> w1
              | Some m \<Rightarrow> snd (send_event (fst m) (snd m) w1))"
      by blast
    show ?thesis
    proof (cases "op_event dumps x w")
      case None
      have "step dumps x w = w1" using w1(2) None by simp
      moreover have "hget (heap w1) q = hget (heap w) q" "subscribers w1 = subscribers w"
        using w1(1) iq by (simp_all add: quiet_def)
      moreover have "x \<noteq> Drain q" "x \<noteq> Unsubscribe q" using xx by auto
      ultimately show ?thesis using None assms(2) by simp
    next
      case (Some m)
      have st: "step dumps x w = snd (send_event (fst m) (snd m) w1)" using w1(2) Some by simp
      have ne: "x \<noteq> Drain q" "x \<noteq> Unsubscribe q" using xx by auto
      from publish_after_quiet[OF assms(1) w1(1), of "fst m" "snd m"] have
        p: "subscribers (step dumps x w) = filter (\<lambda>q. \<not> is_full (heap w) q) (subscribers w)"
           "hget (heap (step dumps x w)) q =
              Some (OQueue mx (if q \<in> set (subscribers w) \<and> \<not> is_full (heap w) q
                               then items @ [(fst m, snd m)] else items))"
        unfolding st using assms(2) by blast+
      show ?thesis using p ne Some by simp
    qed
  qed
  show ?thesis
  proof (cases x)
    case (AddLog line)
    then show ?thesis using pub_case[of line] by simp
  next
    case Notify
    then show ?thesis using pub_case[of undefined] by simp
  next
    case (SetAttr k v)
    then show ?thesis using quiet_case quiet_setattr[of w k v] by simp
  next
    case Subscribe
    then show ?thesis using subscribe_spec[OF assms(1)] assms(2) lt
      by (simp add: hget_append)
  next
    case (Unsubscribe q')
    have "heap (unsubscribe q' w) = heap w"
         "set (subscribers (unsubscribe q' w)) = set (subscribers w) - {q'}"
      using unsubscribe_spec[OF assms(1), of q'] by blast+
    then show ?thesis using Unsubscribe assms(2) by auto
  next
    case (Drain q')
    then show ?thesis using assms(2) by (cases "q' = q") (simp_all add: sse_iter_hget sse_iter_rest)
  next
    case (GetLogs n)
    then show ?thesis using quiet_case quiet_get_logs[of w n] by simp
  next
    case ToDict
    then show ?thesis using quiet_case quiet_to_dict[of w] by simp
  next
    case Connect
    from sse_init_spec[OF assms(1), of dumps] obtain w3 where
      w3: "quiet w w3"
          "(\<exists>e. sse_init dumps w = (Inl e, w3)) \<or>
           (\<exists>init_data. sse_init dumps w =
               (Inr (sse_frame ''init'' init_data, length (heap w3)), snd (subscribe w3)))"
      by blast
    have wf3: "well_formed w3" "extends w w3" using quiet_step[OF assms(1) w3(1)] by simp_all
    have h3: "hget (heap w3) q = Some (OQueue mx items)" "subscribers w3 = subscribers w"
      using w3(1) iq assms(2) by (simp_all add: quiet_def)
    have lt3: "q < length (heap w3)" using h3(1) by (rule hget_Some_less)
    have s: "hget (heap (snd (subscribe w3))) q = Some (OQueue mx items)"
            "(q \<in> set (subscribers (snd (subscribe w3)))) = (q \<in> set (subscribers w))"
      using subscribe_spec[OF wf3(1)] h3 lt3 by (simp_all add: hget_append)
    show ?thesis using Connect w3(2) h3 s by auto
  qed
qed

section \<open>Publishing\<close>

lemma well_formed_two_viewers: "well_formed two_viewers"
  by (simp add: well_formed_def two_viewers_def state0_def class_defaults_def is_list_def
      is_queue_def hget_def field_names_def)

text \<open>
  Claim C2. \<open>_send_event\<close> on a well-formed state returns without raising, offers the
  message to every registered queue, removes from the registry exactly the queues that
  were full (their content stays as it was) and appends the message to every other
  registered queue.
\<close>

theorem publish_drops_exactly_full:
  assumes "well_formed w"
  shows "fst (send_event et d w) = Inr () \<and>
         subscribers (snd (send_event et d w)) =
           filter (\<lambda>q. \<not> is_full (heap w) q) (subscribers w) \<and>
         (\<forall>q \<in> set (subscribers w).
            queue_items (heap (snd (send_event et d w))) q =
              (if is_full (heap w) q then queue_items (heap w) q
               else queue_items (heap w) q @ [(et, d)]))"
proof -
  from send_event_wf[OF assms, of et d] obtain w' where
    w': "send_event et d w = (Inr (), w')"
        "subscribers w' = filter (\<lambda>q. \<not> is_full (heap w) q) (subscribers w)"
        "\<forall>q \<in> set (subscribers w). hget (heap w') q =
              (if is_full (heap w) q then hget (heap w) q
               else (case hget (heap w) q of
                       Some (OQueue mx items) \<Rightarrow> Some (OQueue mx (items @ [(et, d)])) | x \<Rightarrow> x))"
    by blast
  have "queue_items (heap w') q =
          (if is_full (heap w) q then queue_items (heap w) q else queue_items (heap w) q @ [(et, d)])"
    if q: "q \<in> set (subscribers w)" for q
  proof -
    have "is_queue (heap w) q" using assms q by (simp add: well_formed_def list_all_iff)
    then obtain mx items where "hget (heap w) q = Some (OQueue mx items)"
      by (auto dest: is_queueE)
    then show ?thesis using w'(3) q by (simp add: queue_items_def)
  qed
  then show ?thesis using w'(1,2) by simp
qed

theorem publish_drops_exactly_full_witness:
  "well_formed two_viewers \<and>
   fst (send_event ''log'' ''c'' two_viewers) = Inr () \<and>
   subscribers (snd (send_event ''log'' ''c'' two_viewers)) = [3] \<and>
   queue_items (heap (snd (send_event ''log'' ''c'' two_viewers))) 3 = [(''log'', ''c'')] \<and>
   queue_items (heap (snd (send_event ''log'' ''c'' two_viewers))) 4 = replicate 50 (''log'', ''x'')"
proof -
  have wf: "well_formed two_viewers" by (rule well_formed_two_viewers)
  have s: "subscribers two_viewers = [3, 4]" by (simp add: two_viewers_def)
  have f3: "\<not> is_full (heap two_viewers) 3" by (simp add: two_viewers_def is_full_def hget_def)
  have f4: "is_full (heap two_viewers) 4" by (simp add: two_viewers_def is_full_def hget_def)
  have q3: "queue_items (heap two_viewers) 3 = []"
    by (simp add: two_viewers_def queue_items_def hget_def)
  have q4: "queue_items (heap two_viewers) 4 = replicate 50 (''log'', ''x'')"
    by (simp add: two_viewers_def queue_items_def hget_def)
  show ?thesis
    using publish_drops_exactly_full[OF wf, of "''log''" "''c''"] wf
    by (simp add: s f3 f4 q3 q4)
qed

section \<open>Queues outside the registry\<close>

lemma run_unsubscribed:
  "well_formed w \<Longrightarrow> hget (heap w) q = Some (OQueue mx items) \<Longrightarrow>
   q \<notin> set (subscribers w) \<Longrightarrow> Drain q \<notin> set ops \<Longrightarrow>
   hget (heap (run dumps ops w)) q = Some (OQueue mx items) \<and>
   q \<notin> set (subscribers (run dumps ops w))"
proof (induction ops arbitrary: w)
  case Nil
  then show ?case by simp
next
  case (Cons x xs)
  have x: "x \<noteq> Drain q" using Cons.prems(4) by auto
  have 1: "hget (heap (step dumps x w)) q = Some (OQueue mx items)"
          "q \<notin> set (subscribers (step dumps x w))"
    using step_queue[OF Cons.prems(1,2), of dumps x] Cons.prems(3) x by simp_all
  have 2: "well_formed (step dumps x w)" using step_wf[OF Cons.prems(1)] by simp
  have 3: "Drain q \<notin> set xs" using Cons.prems(4) by simp
  show ?case using Cons.IH[OF 2 1 3] by simp
qed

section \<open>Queues in the registry\<close>

lemma drained_head:
  assumes "hget (heap w) q = Some (OQueue mx items)"
  shows "(case queue_get q (heap w) of Inl e \<Rightarrow> [] | Inr (m, h) \<Rightarrow> [m]) @ tl items = items"
  using assms by (cases items) (simp_all add: queue_get_def)

lemma run_subscribed:
  "well_formed w \<Longrightarrow> hget (heap w) q = Some (OQueue mx items) \<Longrightarrow>
   q \<in> set (subscribers w) \<Longrightarrow> Unsubscribe q \<notin> set ops \<Longrightarrow> never_full dumps q ops w \<Longrightarrow>
   drained dumps q ops w @ queue_items (heap (run dumps ops w)) q = items @ published dumps ops w \<and>
   q \<in> set (subscribers (run dumps ops w))"
proof (induction ops arbitrary: w items)
  case Nil
  then show ?case by (simp add: queue_items_def)
next
  case (Cons x xs)
  have nf: "\<not> is_full (heap w) q" and nf': "never_full dumps q xs (step dumps x w)"
    using Cons.prems(5) by simp_all
  have ux: "x \<noteq> Unsubscribe q" and uxs: "Unsubscribe q \<notin> set xs"
    using Cons.prems(4) by auto
  define ev where "ev = (case op_event dumps x w of None \<Rightarrow> [] | Some m \<Rightarrow> [m])"
  define items' where "items' = (if x = Drain q then tl items else items @ ev)"
  have 1: "hget (heap (step dumps x w)) q = Some (OQueue mx items')"
          "q \<in> set (subscribers (step dumps x w))"
    using step_queue[OF Cons.prems(1,2), of dumps x] Cons.prems(3) nf ux
    by (simp_all add: items'_def ev_def)
  have 2: "well_formed (step dumps x w)" using step_wf[OF Cons.prems(1)] by simp
  from Cons.IH[OF 2 1 uxs nf'] have
    ih: "drained dumps q xs (step dumps x w) @ queue_items (heap (run dumps xs (step dumps x w))) q =
           items' @ published dumps xs (step dumps x w)"
        "q \<in> set (subscribers (run dumps xs (step dumps x w)))"
    by simp_all
  show ?case
  proof (cases "x = Drain q")
    case True
    then have "ev = []" by (simp add: ev_def)
    then show ?thesis
      using True ih drained_head[OF Cons.prems(2)]
      by (simp add: items'_def)
  next
    case False
    then show ?thesis using ih by (simp add: items'_def ev_def)
  qed
qed

section \<open>Snapshots\<close>

lemma getattrs_spec:
  "list_all (\<lambda>k. a k \<noteq> None) ks \<Longrightarrow>
   \<exists>kvs. getattrs a ks = Inr kvs \<and> map fst kvs = ks \<and> (\<forall>k \<in> set ks. map_of kvs k = a k)"
proof (induction ks)
  case Nil
  then show ?case by simp
next
  case (Cons k ks)
  then obtain v where v: "a k = Some v" by auto
  from Cons obtain kvs where
    kvs: "getattrs a ks = Inr kvs" "map fst kvs = ks" "\<forall>k \<in> set ks. map_of kvs k = a k"
    by auto
  have 1: "getattrs a (k # ks) = Inr ((k, v) # kvs)" using v kvs(1) by (simp add: getattr_def)
  have 2: "map fst ((k, v) # kvs) = k # ks" using kvs(2) by simp
  have 3: "\<forall>k' \<in> set (k # ks). map_of ((k, v) # kvs) k' = a k'" using v kvs(3) by simp
  show ?case by (rule exI[of _ "(k, v) # kvs"]) (use 1 2 3 in blast)
qed

lemma run_keeps_object:
  assumes "well_formed w" and "hget (heap w) a = Some ob"
    and "a \<noteq> log_lines w" and "\<not> is_queue (heap w) a"
  shows "hget (heap (run dumps ops w)) a = Some ob"
proof -
  have "a < length (heap w)" using assms(2) by (rule hget_Some_less)
  then show ?thesis using run_extends[OF assms(1), of dumps ops] assms(2,3,4)
    by (simp add: extends_def)
qed





section \<open>The frame of one turn\<close>

lemma sse_iter_frame:
  assumes "hget (heap w) q = Some (OQueue mx items)"
  shows "fst (sse_iter q w) =
           Inr (case items of [] \<Rightarrow> keepalive_frame | m # rest \<Rightarrow> sse_frame (fst m) (snd m))"
  using assms by (cases items) (auto simp: sse_iter_def queue_get_def split: prod.splits)

section \<open>The log handler\<close>

lemma put_all_error: "put_all m qs dead h = (Inl e, h') \<Longrightarrow> is_Exception e"
proof (induction qs arbitrary: dead h)
  case Nil
  then show ?case by simp
next
  case (Cons q qs)
  show ?case
  proof (cases "put_nowait m q h")
    case (Inr h1)
    then show ?thesis using Cons by simp
  next
    case (Inl e1)
    then have "e1 = Full \<or> e1 = AttributeError"
      by (auto simp: put_nowait_def split: option.splits pyobj.splits if_splits)
    then show ?thesis using Cons Inl by auto
  qed
qed

lemma remove_dead_error: "remove_dead dead subs = (Inl e, subs') \<Longrightarrow> is_Exception e"
  by (induction dead arbitrary: subs) (auto simp: list_remove_def split: if_splits)

lemma send_event_error: "send_event et d w = (Inl e, w') \<Longrightarrow> is_Exception e"
  by (auto simp: send_event_def split: prod.splits sum.splits
      dest: put_all_error remove_dead_error)

lemma add_log_error: "add_log line w = (Inl e, w') \<Longrightarrow> is_Exception e"
  by (auto simp: add_log_def Let_def split: option.splits pyobj.splits dest: send_event_error)

text \<open>
  Claim C10. \<open>emit\<close> returns normally for every record and every state, well-formed
  or not: whatever \<open>Exception\<close> the formatter raises is discarded and the state is
  left as it was, and whatever \<open>add_log\<close> raises is an \<open>Exception\<close> and is discarded
  too. (\<open>KeyboardInterrupt\<close> and \<open>SystemExit\<close> are not errors of the formatter; \<open>except
  Exception\<close> lets them through.)
\<close>

theorem emit_never_raises:
  assumes "\<forall>e. fmt record = Inl e \<longrightarrow> is_Exception e"
  shows "fst (emit fmt record w) = Inr () \<and>
         (\<forall>e. fmt record = Inl e \<longrightarrow> snd (emit fmt record w) = w) \<and>
         (\<forall>m. fmt record = Inr m \<longrightarrow> snd (emit fmt record w) = snd (add_log m w))"
proof (cases "fmt record")
  case (Inl e)
  then show ?thesis using assms by (simp add: emit_def)
next
  case (Inr m)
  obtain r w' where a: "add_log m w = (r, w')" by (cases "add_log m w")
  show ?thesis
  proof (cases r)
    case (Inl e)
    then have "is_Exception e" using a add_log_error by blast
    then show ?thesis using Inr a Inl by (simp add: emit_def)
  next
    case r: (Inr u)
    then show ?thesis using Inr a by (simp add: emit_def)
  qed
qed

theorem emit_never_raises_witness:
  "is_Exception (OtherException ''bad format'') \<and>
   emit (\<lambda>r::nat. Inl (OtherException ''bad format'')) 0 two_viewers = (Inr (), two_viewers) \<and>
   fst (add_log ''c'' (two_viewers\<lparr>log_lines := 0\<rparr>)) = Inl AttributeError \<and>
   fst (emit (\<lambda>r::nat. Inr ''c'') 0 (two_viewers\<lparr>log_lines := 0\<rparr>)) = Inr ()"
proof -
  have a: "fst (add_log ''c'' (two_viewers\<lparr>log_lines := 0\<rparr>)) = Inl AttributeError"
    by (simp add: add_log_def two_viewers_def state0_def hget_def)
  have 1: "fst (emit (\<lambda>r::nat. Inl (OtherException ''bad format'')) 0 two_viewers) = Inr () \<and>
           snd (emit (\<lambda>r::nat. Inl (OtherException ''bad format'')) 0 two_viewers) = two_viewers"
    using emit_never_raises[of "\<lambda>r::nat. Inl (OtherException ''bad format'')" 0 two_viewers]
    by simp
  have 2: "fst (emit (\<lambda>r::nat. Inr ''c'') 0 (two_viewers\<lparr>log_lines := 0\<rparr>)) = Inr ()"
    using emit_never_raises[of "\<lambda>r::nat. Inr ''c''" 0 "two_viewers\<lparr>log_lines := 0\<rparr>"]
    by simp
  show ?thesis using a 1 2
    by (cases "emit (\<lambda>r::nat. Inl (OtherException ''bad format'')) 0 two_viewers") simp
qed

section \<open>Unsubscribing a queue\<close>

text \<open>
  Claim C7. \<open>unsubscribe\<close> takes the queue out of the registry and leaves the other
  entries and the store as they are; on a queue that is not registered (never was, or
  was removed before) it changes nothing, so a second call is a no-op. Afterwards no
  run of calls whose field writes are to public data names registers the queue again
  or writes to it: its content changes only when its own handler takes a message from it.
\<close>

theorem unsubscribe_removes_and_is_idempotent:
  assumes "well_formed w" and "is_queue (heap w) q"
  shows "q \<notin> set (subscribers (unsubscribe q w)) \<and>
         subscribers (unsubscribe q w) = remove1 q (subscribers w) \<and>
         heap (unsubscribe q w) = heap w \<and>
         unsubscribe q (unsubscribe q w) = unsubscribe q w \<and>
         (q \<notin> set (subscribers w) \<longrightarrow> unsubscribe q w = w) \<and>
         (list_all public_op ops \<and> Drain q \<notin> set ops \<longrightarrow>
            q \<notin> set (subscribers (run dumps ops (unsubscribe q w))) \<and>
            hget (heap (run dumps ops (unsubscribe q w))) q = hget (heap w) q)"
proof -
  have u: "well_formed (unsubscribe q w)" "heap (unsubscribe q w) = heap w"
          "set (subscribers (unsubscribe q w)) = set (subscribers w) - {q}"
          "subscribers (unsubscribe q w) = remove1 q (subscribers w)"
    using unsubscribe_spec[OF assms(1), of q] by blast+
  have a: "q \<notin> set (subscribers (unsubscribe q w))" using u(3) by simp
  have b: "unsubscribe q (unsubscribe q w) = unsubscribe q w"
    using a by (simp add: unsubscribe_def)
  have c: "q \<notin> set (subscribers w) \<longrightarrow> unsubscribe q w = w"
    by (simp add: unsubscribe_def)
  obtain mx items where q: "hget (heap w) q = Some (OQueue mx items)"
    using assms(2) by (auto dest: is_queueE)
  have d: "q \<notin> set (subscribers (run dumps ops (unsubscribe q w))) \<and>
           hget (heap (run dumps ops (unsubscribe q w))) q = hget (heap w) q"
    if "Drain q \<notin> set ops"
    using run_unsubscribed[OF u(1) _ a that, of mx items dumps] q u(2) by simp
  show ?thesis using a b c d u(2,4) by blast
qed

theorem unsubscribe_removes_and_is_idempotent_witness:
  "well_formed two_viewers \<and> is_queue (heap two_viewers) 3 \<and>
   subscribers (unsubscribe 3 two_viewers) = [4] \<and>
   unsubscribe 3 (unsubscribe 3 two_viewers) = unsubscribe 3 two_viewers \<and>
   list_all public_op [SetAttr ''status'' (VStr ''trading''), AddLog ''c'', Subscribe] \<and>
   Drain 3 \<notin> set [SetAttr ''status'' (VStr ''trading''), AddLog ''c'', Subscribe] \<and>
   3 \<notin> set (subscribers (run (\<lambda>h a. Inr ''{}'')
       [SetAttr ''status'' (VStr ''trading''), AddLog ''c'', Subscribe] (unsubscribe 3 two_viewers))) \<and>
   hget (heap (run (\<lambda>h a. Inr ''{}'')
       [SetAttr ''status'' (VStr ''trading''), AddLog ''c'', Subscribe] (unsubscribe 3 two_viewers))) 3 =
     Some (OQueue 50 [])"
proof -
  have wf: "well_formed two_viewers" by (rule well_formed_two_viewers)
  have q: "is_queue (heap two_viewers) 3" by (simp add: two_viewers_def is_queue_def hget_def)
  have s: "subscribers (unsubscribe 3 two_viewers) = [4]"
    by (simp add: unsubscribe_def two_viewers_def)
  have h: "hget (heap two_viewers) 3 = Some (OQueue 50 [])"
    by (simp add: two_viewers_def hget_def)
  have p: "list_all public_op [SetAttr ''status'' (VStr ''trading''), AddLog ''c'', Subscribe]"
    by (simp add: public_name_def method_names_def)
  have n: "Drain 3 \<notin> set [SetAttr ''status'' (VStr ''trading''), AddLog ''c'', Subscribe]" by simp
  show ?thesis
    using unsubscribe_removes_and_is_idempotent
      [OF wf q, of "[SetAttr ''status'' (VStr ''trading''), AddLog ''c'', Subscribe]" "\<lambda>h a. Inr ''{}''"]
      wf q s h p n
    by simp
qed

section \<open>What a subscriber receives\<close>

text \<open>
  Claim C6. A queue created by \<open>subscribe\<close> that is not unsubscribed and is never full
  during a run (whose field writes are to public data names) receives every message
  published in the run: what its handler has taken from it, followed by what it still
  holds, is the sequence of published messages, in publish order, each once, and
  nothing from before the subscription.
\<close>

theorem subscriber_receives_all_in_order:
  assumes "well_formed w0" and "subscribe w0 = (q, w)"
    and "list_all public_op ops"
    and "Unsubscribe q \<notin> set ops" and "never_full dumps q ops w"
  shows "drained dumps q ops w @ queue_items (heap (run dumps ops w)) q = published dumps ops w"
proof -
  have s: "fst (subscribe w0) = length (heap w0)" "well_formed (snd (subscribe w0))"
    "subscribers (snd (subscribe w0)) = subscribers w0 @ [length (heap w0)]"
    "heap (snd (subscribe w0)) = heap w0 @ [OQueue 50 []]"
    using subscribe_spec[OF assms(1)] by blast+
  have q: "q = length (heap w0)" and w: "w = snd (subscribe w0)" using s(1) assms(2) by simp_all
  have h: "hget (heap w) q = Some (OQueue 50 [])" using s(4) by (simp add: q w hget_append)
  have m: "q \<in> set (subscribers w)" using s(3) by (simp add: q w)
  have wf: "well_formed w" using s(2) w by simp
  show ?thesis using run_subscribed[OF wf h m assms(4,5)] by simp
qed

theorem subscriber_receives_all_in_order_witness:
  "well_formed state0 \<and> subscribe state0 = (3, snd (subscribe state0)) \<and>
   list_all public_op [AddLog ''a'', Drain 3, SetAttr ''status'' (VStr ''trading''), Notify, AddLog ''b''] \<and>
   Unsubscribe 3 \<notin> set [AddLog ''a'', Drain 3, SetAttr ''status'' (VStr ''trading''), Notify, AddLog ''b''] \<and>
   never_full (\<lambda>h a. Inr ''{}'') 3
     [AddLog ''a'', Drain 3, SetAttr ''status'' (VStr ''trading''), Notify, AddLog ''b'']
     (snd (subscribe state0)) \<and>
   drained (\<lambda>h a. Inr ''{}'') 3
     [AddLog ''a'', Drain 3, SetAttr ''status'' (VStr ''trading''), Notify, AddLog ''b'']
     (snd (subscribe state0)) = [(''log'', ''a'')] \<and>
   queue_items (heap (run (\<lambda>h a. Inr ''{}'')
     [AddLog ''a'', Drain 3, SetAttr ''status'' (VStr ''trading''), Notify, AddLog ''b'']
     (snd (subscribe state0)))) 3 = [(''state'', ''{}''), (''log'', ''b'')]"
proof -
  let ?ops = "[AddLog ''a'', Drain 3, SetAttr ''status'' (VStr ''trading''), Notify, AddLog ''b'']"
  let ?d = "\<lambda>(h::pyobj list) (a::addr). (Inr ''{}'' :: error + string)"
  have wf: "well_formed state0" by (rule well_formed_state0)
  have s: "subscribe state0 = (3, snd (subscribe state0))"
    by (simp add: subscribe_def alloc_def state0_def)
  have p: "list_all public_op ?ops" by (simp add: public_name_def method_names_def)
  have u: "Unsubscribe 3 \<notin> set ?ops" by simp
  have n: "never_full ?d 3 ?ops (snd (subscribe state0))" by code_simp
  have pb: "published ?d ?ops (snd (subscribe state0)) =
           [(''log'', ''a''), (''state'', ''{}''), (''log'', ''b'')]"
    by code_simp
  have dr: "drained ?d 3 ?ops (snd (subscribe state0)) = [(''log'', ''a'')]"
    by code_simp
  show ?thesis
    using subscriber_receives_all_in_order[OF wf s p u n] wf s p u n pb dr by simp
qed

section \<open>Lists returned by \<open>get_logs\<close>\<close>

text \<open>
  Claim C9. \<open>get_logs\<close> returns a list object of its own, at an address not in use
  before: writing to that list (any new content, an \<open>append\<close> in particular) leaves
  the log buffer as it was, and no later run of calls on the state whose field writes
  are to public data names (\<open>add_log\<close> included) changes the returned list.
\<close>

theorem get_logs_returns_fresh_list:
  assumes "well_formed w"
  shows "\<exists>xs. log_buffer w = Some xs \<and>
           get_logs n w =
             (Inr (length (heap w)), w\<lparr>heap := heap w @ [OList (slice_from (- n) xs)]\<rparr>) \<and>
           (\<forall>ob. log_buffer ((snd (get_logs n w))
                    \<lparr>heap := (heap (snd (get_logs n w)))[length (heap w) := ob]\<rparr>) = Some xs) \<and>
           (\<forall>v. log_buffer (snd (list_append (length (heap w)) v (snd (get_logs n w)))) = Some xs) \<and>
           (list_all public_op ops \<longrightarrow>
              hget (heap (run dumps ops (snd (get_logs n w)))) (length (heap w)) =
                Some (OList (slice_from (- n) xs)))"
proof -
  from assms obtain xs where xs: "hget (heap w) (log_lines w) = Some (OList xs)"
    by (auto simp: well_formed_def is_list_def split: option.splits pyobj.splits)
  define r where "r = length (heap w)"
  define w' where "w' = w\<lparr>heap := heap w @ [OList (slice_from (- n) xs)]\<rparr>"
  have g: "get_logs n w = (Inr r, w')"
    using xs by (simp add: get_logs_def alloc_def r_def w'_def)
  have lt: "log_lines w < r" using xs unfolding r_def by (rule hget_Some_less)
  have b: "log_buffer w = Some xs" using xs by (simp add: log_buffer_def)
  have h': "hget (heap w') (log_lines w') = Some (OList xs)"
    using xs lt by (simp add: w'_def hget_append r_def)
  have hr: "hget (heap w') r = Some (OList (slice_from (- n) xs))"
    by (simp add: w'_def hget_append r_def)
  have upd: "log_buffer (w'\<lparr>heap := (heap w')[r := ob]\<rparr>) = Some xs" for ob
    using h' lt by (simp add: log_buffer_def hget_update w'_def)
  have app: "log_buffer (snd (list_append r v w')) = Some xs" for v
    using h' hr lt by (simp add: list_append_def log_buffer_def hget_update w'_def)
  have wf: "well_formed w'"
    using quiet_step[OF assms quiet_get_logs, of n] g by simp
  have nl: "r \<noteq> log_lines w'" using lt by (simp add: w'_def)
  have nq: "\<not> is_queue (heap w') r" using hr by (simp add: is_queue_def)
  have keep: "hget (heap (run dumps ops w')) r = Some (OList (slice_from (- n) xs))"
    using run_keeps_object[OF wf hr nl nq] .
  show ?thesis
    using b g upd app keep unfolding r_def w'_def by auto
qed

theorem get_logs_returns_fresh_list_witness:
  "well_formed two_viewers \<and> fst (get_logs 1 two_viewers) = Inr 5 \<and>
   log_buffer (snd (list_append 5 (VStr ''z'') (snd (get_logs 1 two_viewers)))) =
     Some [VStr ''a'', VStr ''b''] \<and>
   list_all public_op [SetAttr ''status'' (VStr ''trading''), AddLog ''c''] \<and>
   hget (heap (run (\<lambda>h a. Inr ''{}'') [SetAttr ''status'' (VStr ''trading''), AddLog ''c'']
                (snd (get_logs 1 two_viewers)))) 5 =
     Some (OList [VStr ''b''])"
proof -
  let ?ops = "[SetAttr ''status'' (VStr ''trading''), AddLog ''c'']"
  have wf: "well_formed two_viewers" by (rule well_formed_two_viewers)
  have l: "length (heap two_viewers) = 5" by (simp add: two_viewers_def)
  have b: "log_buffer two_viewers = Some [VStr ''a'', VStr ''b'']"
    by (simp add: two_viewers_def log_buffer_def hget_def state0_def)
  have s: "slice_from (- 1) [VStr ''a'', VStr ''b''] = [VStr ''b'']"
    by (simp add: slice_from_def)
  have p: "list_all public_op ?ops" by (simp add: public_name_def method_names_def)
  from get_logs_returns_fresh_list[OF wf, of 1 ?ops "\<lambda>h a. Inr ''{}''"]
  obtain xs where
    x: "log_buffer two_viewers = Some xs"
       "get_logs 1 two_viewers =
          (Inr (length (heap two_viewers)),
           two_viewers\<lparr>heap := heap two_viewers @ [OList (slice_from (- 1) xs)]\<rparr>)"
       "\<forall>v. log_buffer (snd (list_append (length (heap two_viewers)) v (snd (get_logs 1 two_viewers)))) = Some xs"
       "list_all public_op ?ops \<longrightarrow>
        hget (heap (run (\<lambda>h a. Inr ''{}'') ?ops (snd (get_logs 1 two_viewers))))
          (length (heap two_viewers)) = Some (OList (slice_from (- 1) xs))"
    by blast
  have xs: "xs = [VStr ''a'', VStr ''b'']" using x(1) b by simp
  have k: "hget (heap (run (\<lambda>h a. Inr ''{}'') ?ops (snd (get_logs 1 two_viewers)))) 5 =
             Some (OList [VStr ''b''])"
    using x(4) p by (simp add: l xs s)
  show ?thesis using wf x(2,3) p k by (simp add: l xs)
qed

section \<open>What a connection writes\<close>

lemma op_event_origin:
  "op_event dumps x w = Some m \<Longrightarrow>
   (fst m = ''state'' \<and> (\<exists>h a. dumps h a = Inr (snd m))) \<or>
   (fst m = ''log'' \<and> x = AddLog (snd m))"
proof (cases x)
  case Notify
  obtain r w1 where t: "to_dict w = (r, w1)" by (cases "to_dict w")
  assume m: "op_event dumps x w = Some m"
  show ?thesis
  proof (cases r)
    case (Inl e)
    then show ?thesis using m Notify t by simp
  next
    case (Inr a)
    show ?thesis
    proof (cases "dumps (heap w1) a")
      case (Inl e)
      then show ?thesis using m Notify t Inr by simp
    next
      case s: (Inr s)
      then have "m = (''state'', s)" using m Notify t Inr by simp
      then show ?thesis using s by auto
    qed
  qed
qed (auto split: if_splits)

lemma sse_init_frame:
  "sse_init dumps w0 = (Inr (f0, q), w) \<Longrightarrow>
   \<exists>h c init_data. dumps h c = Inr init_data \<and> f0 = sse_frame ''init'' init_data"
  by (auto simp: sse_init_def split: prod.splits sum.splits)

lemma sse_output_polls:
  "well_formed w \<Longrightarrow> hget (heap w) q = Some (OQueue mx items) \<Longrightarrow>
   sse_output dumps q ops w =
     map (\<lambda>p. case p of None \<Rightarrow> keepalive_frame | Some m \<Rightarrow> sse_frame (fst m) (snd m))
       (polls dumps q ops w)"
proof (induction ops arbitrary: w items)
  case Nil
  then show ?case by simp
next
  case (Cons x xs)
  obtain items' where 1: "hget (heap (step dumps x w)) q = Some (OQueue mx items')"
    using step_queue[OF Cons.prems(1,2), of dumps x] by blast
  have 2: "well_formed (step dumps x w)" using step_wf[OF Cons.prems(1)] by simp
  note ih = Cons.IH[OF 2 1]
  have qi: "queue_items (heap w) q = items" using Cons.prems(2) by (simp add: queue_items_def)
  show ?case
  proof (cases "x = Drain q")
    case False
    then show ?thesis using ih by simp
  next
    case True
    show ?thesis
      using True ih sse_iter_frame[OF Cons.prems(2)] qi
      by (cases items) simp_all
  qed
qed

lemma run_polls_origin:
  "well_formed w \<Longrightarrow> hget (heap w) q = Some (OQueue mx items) \<Longrightarrow> set ops \<subseteq> S \<Longrightarrow>
   \<forall>m \<in> set items. (fst m = ''state'' \<and> (\<exists>h a. dumps h a = Inr (snd m))) \<or>
                     (fst m = ''log'' \<and> AddLog (snd m) \<in> S) \<Longrightarrow>
   \<forall>p \<in> set (polls dumps q ops w).
      case p of None \<Rightarrow> True
      | Some m \<Rightarrow> (fst m = ''state'' \<and> (\<exists>h a. dumps h a = Inr (snd m))) \<or>
                  (fst m = ''log'' \<and> AddLog (snd m) \<in> S)"
proof (induction ops arbitrary: w items)
  case Nil
  then show ?case by simp
next
  case (Cons x xs)
  let ?P = "\<lambda>m. (fst m = ''state'' \<and> (\<exists>h a. dumps h a = Inr (snd m))) \<or>
                 (fst m = ''log'' \<and> AddLog (snd m) \<in> S)"
  define ev where "ev = (case op_event dumps x w of None \<Rightarrow> [] | Some m \<Rightarrow> [m])"
  define items' where "items' =
     (if x = Drain q then tl items
      else if q \<in> set (subscribers w) \<and> \<not> is_full (heap w) q then items @ ev else items)"
  have 1: "hget (heap (step dumps x w)) q = Some (OQueue mx items')"
    using step_queue[OF Cons.prems(1,2), of dumps x] by (simp add: items'_def ev_def)
  have 2: "well_formed (step dumps x w)" using step_wf[OF Cons.prems(1)] by simp
  have xs: "set xs \<subseteq> S" and x: "x \<in> S" using Cons.prems(3) by auto
  have evk: "\<forall>m \<in> set ev. ?P m"
  proof (cases "op_event dumps x w")
    case None
    then show ?thesis by (simp add: ev_def)
  next
    case (Some m)
    then show ?thesis using op_event_origin[OF Some] x by (auto simp: ev_def)
  qed
  have tlk: "\<forall>m \<in> set (tl items). ?P m"
    using Cons.prems(4) by (cases items) simp_all
  have 3: "\<forall>m \<in> set items'. ?P m"
    using Cons.prems(4) evk tlk by (auto simp: items'_def)
  have rest: "\<forall>p \<in> set (polls dumps q xs (step dumps x w)).
      case p of None \<Rightarrow> True | Some m \<Rightarrow> ?P m"
    using Cons.IH[OF 2 1 xs 3] .
  have qi: "queue_items (heap w) q = items" using Cons.prems(2) by (simp add: queue_items_def)
  show ?case
  proof (cases "x = Drain q")
    case False
    then show ?thesis using rest by simp
  next
    case True
    show ?thesis
    proof (cases items)
      case Nil
      then show ?thesis using True rest qi by simp
    next
      case c: (Cons m ms)
      then have "?P m" using Cons.prems(4) by simp
      then show ?thesis using True rest qi c by simp
    qed
  qed
qed

lemma single_line_in_run:
  "list_all single_line_op ops \<Longrightarrow> AddLog line \<in> set ops \<Longrightarrow> single_line line"
  by (induction ops) auto

text \<open>
  Claim C8, as the code has it. A connection first writes the init frame, whose data
  is the output of \<open>json.dumps\<close>. At each later turn the handler writes the keepalive
  \<open>:keepalive\n\n\<close> (no space after the colon) if its queue is empty, and otherwise
  the frame \<open>event: <kind>\ndata: <data>\n\n\<close> of the oldest queued message, with the
  queued data as it is. Every queued message is a \<open>state\<close> message whose data is an
  output of \<open>json.dumps\<close> or a \<open>log\<close> message whose data is a line passed to
  \<open>add_log\<close>, not encoded. Stated for runs whose log lines hold no line break and
  whose field writes are to public data names.
\<close>

theorem sse_frames:
  assumes "well_formed w0" and "sse_init dumps w0 = (Inr (f0, q), w)"
    and "list_all public_op ops" and "list_all single_line_op ops"
  shows "(\<exists>h c init_data. dumps h c = Inr init_data \<and>
            f0 = ''event: init'' @ [CHR 0x0A] @ ''data: '' @ init_data @ [CHR 0x0A, CHR 0x0A]) \<and>
         sse_output dumps q ops w =
           map (\<lambda>p. case p of
                  None \<Rightarrow> '':keepalive'' @ [CHR 0x0A, CHR 0x0A]
                | Some (kind, data) \<Rightarrow>
                    ''event: '' @ kind @ [CHR 0x0A] @ ''data: '' @ data @ [CHR 0x0A, CHR 0x0A])
             (polls dumps q ops w) \<and>
         (\<forall>p \<in> set (polls dumps q ops w).
            case p of
              None \<Rightarrow> True
            | Some (kind, data) \<Rightarrow>
                (kind = ''state'' \<and> (\<exists>h a. dumps h a = Inr data)) \<or>
                (kind = ''log'' \<and> AddLog data \<in> set ops \<and> single_line data))"
proof -
  from sse_init_frame[OF assms(2)] have init:
    "\<exists>h c init_data. dumps h c = Inr init_data \<and>
        f0 = ''event: init'' @ [CHR 0x0A] @ ''data: '' @ init_data @ [CHR 0x0A, CHR 0x0A]"
    by (simp add: sse_frame_def)
  from sse_init_spec[OF assms(1), of dumps] assms(2) obtain w3 where
    w3: "quiet w0 w3" "q = length (heap w3)" "w = snd (subscribe w3)"
    by auto
  have wf3: "well_formed w3" using quiet_step[OF assms(1) w3(1)] by simp
  have s: "well_formed (snd (subscribe w3))" "heap (snd (subscribe w3)) = heap w3 @ [OQueue 50 []]"
    using subscribe_spec[OF wf3] by blast+
  have wf: "well_formed w" using s(1) w3(3) by simp
  have h: "hget (heap w) q = Some (OQueue 50 [])" using s(2) w3(2,3) by (simp add: hget_append)
  have f: "(\<lambda>p. case p of None \<Rightarrow> keepalive_frame | Some m \<Rightarrow> sse_frame (fst m) (snd m)) =
           (\<lambda>p. case p of
                  None \<Rightarrow> '':keepalive'' @ [CHR 0x0A, CHR 0x0A]
                | Some (kind, data) \<Rightarrow>
                    ''event: '' @ kind @ [CHR 0x0A] @ ''data: '' @ data @ [CHR 0x0A, CHR 0x0A])"
    by (auto simp: fun_eq_iff sse_frame_def keepalive_frame_def split: option.splits)
  have out: "sse_output dumps q ops w =
           map (\<lambda>p. case p of
                  None \<Rightarrow> '':keepalive'' @ [CHR 0x0A, CHR 0x0A]
                | Some (kind, data) \<Rightarrow>
                    ''event: '' @ kind @ [CHR 0x0A] @ ''data: '' @ data @ [CHR 0x0A, CHR 0x0A])
             (polls dumps q ops w)"
    using sse_output_polls[OF wf h, of dumps ops] unfolding f .
  have org: "\<forall>p \<in> set (polls dumps q ops w).
      case p of None \<Rightarrow> True
      | Some m \<Rightarrow> (fst m = ''state'' \<and> (\<exists>h a. dumps h a = Inr (snd m))) \<or>
                  (fst m = ''log'' \<and> AddLog (snd m) \<in> set ops)"
    using run_polls_origin[OF wf h, of ops "set ops" dumps] by simp
  have org': "\<forall>p \<in> set (polls dumps q ops w).
            case p of
              None \<Rightarrow> True
            | Some (kind, data) \<Rightarrow>
                (kind = ''state'' \<and> (\<exists>h a. dumps h a = Inr data)) \<or>
                (kind = ''log'' \<and> AddLog data \<in> set ops \<and> single_line data)"
  proof
    fix p assume p: "p \<in> set (polls dumps q ops w)"
    show "case p of
              None \<Rightarrow> True
            | Some (kind, data) \<Rightarrow>
                (kind = ''state'' \<and> (\<exists>h a. dumps h a = Inr data)) \<or>
                (kind = ''log'' \<and> AddLog data \<in> set ops \<and> single_line data)"
    proof (cases p)
      case None
      then show ?thesis by simp
    next
      case (Some m)
      obtain kind data where m: "m = (kind, data)" by (cases m)
      have "(kind = ''state'' \<and> (\<exists>h a. dumps h a = Inr data)) \<or>
            (kind = ''log'' \<and> AddLog data \<in> set ops)"
        using org p Some m by force
      then show ?thesis using Some m single_line_in_run[OF assms(4), of data] by auto
    qed
  qed
  show ?thesis using init out org' by blast
qed

theorem sse_frames_witness:
  "well_formed state0 \<and>
   sse_init (\<lambda>h a. Inr ''{}'') state0 =
     (Inr (''event: init'' @ [CHR 0x0A] @ ''data: {}'' @ [CHR 0x0A, CHR 0x0A], 6),
      snd (sse_init (\<lambda>h a. Inr ''{}'') state0)) \<and>
   list_all public_op [AddLog ''a'', Drain 6, SetAttr ''status'' (VStr ''trading''), Notify, Drain 6, Drain 6] \<and>
   list_all single_line_op [AddLog ''a'', Drain 6, SetAttr ''status'' (VStr ''trading''), Notify, Drain 6, Drain 6] \<and>
   polls (\<lambda>h a. Inr ''{}'') 6
     [AddLog ''a'', Drain 6, SetAttr ''status'' (VStr ''trading''), Notify, Drain 6, Drain 6]
     (snd (sse_init (\<lambda>h a. Inr ''{}'') state0)) =
     [Some (''log'', ''a''), Some (''state'', ''{}''), None] \<and>
   sse_output (\<lambda>h a. Inr ''{}'') 6
     [AddLog ''a'', Drain 6, SetAttr ''status'' (VStr ''trading''), Notify, Drain 6, Drain 6]
     (snd (sse_init (\<lambda>h a. Inr ''{}'') state0)) =
     [''event: log'' @ [CHR 0x0A] @ ''data: a'' @ [CHR 0x0A, CHR 0x0A],
      ''event: state'' @ [CHR 0x0A] @ ''data: {}'' @ [CHR 0x0A, CHR 0x0A],
      '':keepalive'' @ [CHR 0x0A, CHR 0x0A]]"
proof -
  let ?ops = "[AddLog ''a'', Drain 6, SetAttr ''status'' (VStr ''trading''), Notify, Drain 6, Drain 6]"
  let ?d = "\<lambda>(h::pyobj list) (a::addr). (Inr ''{}'' :: error + string)"
  have wf: "well_formed state0" by (rule well_formed_state0)
  have f: "fst (sse_init ?d state0) =
             Inr (''event: init'' @ [CHR 0x0A] @ ''data: {}'' @ [CHR 0x0A, CHR 0x0A], 6)"
    by code_simp
  have i: "sse_init ?d state0 =
     (Inr (''event: init'' @ [CHR 0x0A] @ ''data: {}'' @ [CHR 0x0A, CHR 0x0A], 6),
      snd (sse_init ?d state0))"
    using f by (cases "sse_init ?d state0") simp
  have p: "list_all public_op ?ops" by (simp add: public_name_def method_names_def)
  have l: "list_all single_line_op ?ops" by (simp add: single_line_def)
  have po: "polls ?d 6 ?ops (snd (sse_init ?d state0)) =
              [Some (''log'', ''a''), Some (''state'', ''{}''), None]"
    by code_simp
  have e: "sse_output ?d 6 ?ops (snd (sse_init ?d state0)) =
       map (\<lambda>p. case p of
                  None \<Rightarrow> '':keepalive'' @ [CHR 0x0A, CHR 0x0A]
                | Some (kind, data) \<Rightarrow>
                    ''event: '' @ kind @ [CHR 0x0A] @ ''data: '' @ data @ [CHR 0x0A, CHR 0x0A])
         (polls ?d 6 ?ops (snd (sse_init ?d state0)))"
    by (rule conjunct1[OF conjunct2[OF sse_frames[OF wf i p l]]])
  have out: "sse_output ?d 6 ?ops (snd (sse_init ?d state0)) =
     [''event: log'' @ [CHR 0x0A] @ ''data: a'' @ [CHR 0x0A, CHR 0x0A],
      ''event: state'' @ [CHR 0x0A] @ ''data: {}'' @ [CHR 0x0A, CHR 0x0A],
      '':keepalive'' @ [CHR 0x0A, CHR 0x0A]]"
    by (simp only: e po) simp
  show ?thesis using wf i p l po out by blast
qed

text \<open>
  Claim C8 as stated fails twice. On an idle queue the handler writes
  \<open>:keepalive\n\n\<close>, which is not \<open>: keepalive\n\n\<close>. And the data of a log frame is
  not JSON: for the line \<open>window 1\<close> the frame is \<open>event: log\ndata: window 1\n\n\<close>,
  the bare line, which cannot begin a JSON text.
\<close>

theorem keepalive_and_log_data_differ:
  "fst (sse_iter 3 two_viewers) = Inr ('':keepalive'' @ [CHR 0x0A, CHR 0x0A]) \<and>
   '':keepalive'' @ [CHR 0x0A, CHR 0x0A] \<noteq> '': keepalive'' @ [CHR 0x0A, CHR 0x0A] \<and>
   sse_output (\<lambda>h a. Inr ''{}'') 6 [AddLog ''window 1'', Drain 6]
     (snd (sse_init (\<lambda>h a. Inr ''{}'') state0)) =
     [''event: log'' @ [CHR 0x0A] @ ''data: window 1'' @ [CHR 0x0A, CHR 0x0A]] \<and>
   \<not> json_start ''window 1''"
  by code_simp

section \<open>Field writes and state events\<close>

lemma queue_items_append_heap:
  "q < length h \<Longrightarrow> queue_items (h @ [ob]) q = queue_items h q"
  by (simp add: queue_items_def hget_append)

lemma setattrs_Cons: "setattrs ((k, v) # kvs) w = setattrs kvs (setattr k v w)"
  by (simp add: setattrs_def)

lemma setattrs_rest:
  "heap (setattrs kvs w) = heap w \<and> subscribers (setattrs kvs w) = subscribers w \<and>
   log_lines (setattrs kvs w) = log_lines w \<and> max_log_lines (setattrs kvs w) = max_log_lines w"
proof (induction kvs arbitrary: w)
  case Nil
  then show ?case by (simp add: setattrs_def)
next
  case (Cons kv kvs)
  obtain k v where kv: "kv = (k, v)" by (cases kv)
  show ?case using Cons[of "setattr k v w"] by (simp add: kv setattrs_Cons) (simp add: setattr_def)
qed

lemma setattrs_attrs: "attrs (setattrs kvs w) = attrs w ++ map_of (rev kvs)"
proof (induction kvs arbitrary: w)
  case Nil
  then show ?case by (simp add: setattrs_def)
next
  case (Cons kv kvs)
  obtain k v where kv: "kv = (k, v)" by (cases kv)
  have "attrs (setattrs kvs (setattr k v w)) = attrs (setattr k v w) ++ map_of (rev kvs)"
    by (rule Cons)
  also have "\<dots> = (attrs w)(k \<mapsto> v) ++ map_of (rev kvs)" by (simp add: setattr_def)
  also have "\<dots> = attrs w ++ map_of (rev ((k, v) # kvs))"
    by (simp add: fun_eq_iff map_add_def split: option.splits)
  finally show ?case by (simp add: kv setattrs_Cons)
qed

lemma quiet_setattrs: "quiet w (setattrs kvs w)"
proof (induction kvs arbitrary: w)
  case Nil
  then show ?case by (simp add: setattrs_def quiet_refl)
next
  case (Cons kv kvs)
  obtain k v where kv: "kv = (k, v)" by (cases kv)
  show ?case
    using quiet_trans[OF quiet_setattr[of w k v] Cons[of "setattr k v w"]]
    by (simp add: kv setattrs_Cons)
qed

lemma attrs_send_event: "attrs (snd (send_event et d w)) = attrs w"
  by (auto simp: send_event_def split: prod.splits sum.splits)

lemma attrs_alloc: "attrs (snd (alloc ob w)) = attrs w"
  by (simp add: alloc_def)

lemma attrs_to_dict: "attrs (snd (to_dict w)) = attrs w"
  by (auto simp: to_dict_def alloc_def split: sum.splits)

lemma attrs_get_logs: "attrs (snd (get_logs n w)) = attrs w"
  by (auto simp: get_logs_def alloc_def split: option.splits pyobj.splits)

lemma attrs_add_log: "attrs (snd (add_log line w)) = attrs w"
  by (auto simp: add_log_def Let_def alloc_def attrs_send_event split: option.splits pyobj.splits)

lemma attrs_notify: "attrs (snd (notify dumps w)) = attrs w"
proof -
  obtain r w1 where t: "to_dict w = (r, w1)" by (cases "to_dict w")
  have a: "attrs w1 = attrs w" using attrs_to_dict[of w] t by simp
  show ?thesis using t a
    by (cases r; simp add: notify_def attrs_send_event split: sum.splits)
qed

lemma attrs_subscribe: "attrs (snd (subscribe w)) = attrs w"
  by (simp add: subscribe_def alloc_def)

lemma attrs_sse_init: "attrs (snd (sse_init dumps w)) = attrs w"
proof -
  obtain r1 w1 where t: "to_dict w = (r1, w1)" by (cases "to_dict w")
  have a1: "attrs w1 = attrs w" using attrs_to_dict[of w] t by simp
  obtain r2 w2 where g: "get_logs 200 w1 = (r2, w2)" by (cases "get_logs 200 w1")
  have a2: "attrs w2 = attrs w" using attrs_get_logs[of 200 w1] g a1 by simp
  show ?thesis using t g a1 a2
    by (cases r1; cases r2;
        simp add: sse_init_def alloc_def subscribe_def split: sum.splits)
qed

lemma attrs_step: "(\<exists>k v. x = SetAttr k v) \<or> attrs (step dumps x w) = attrs w"
  by (cases x)
    (simp_all add: attrs_add_log attrs_notify attrs_subscribe unsubscribe_def sse_iter_rest
      attrs_get_logs attrs_to_dict attrs_sse_init)

lemma log_lines_less: "well_formed w \<Longrightarrow> log_lines w < length (heap w)"
  by (auto simp: well_formed_def is_list_def hget_def split: if_splits)

lemma lb_alloc: "well_formed w \<Longrightarrow> log_buffer (snd (alloc ob w)) = log_buffer w"
  using log_lines_less[of w] by (simp add: log_buffer_def alloc_def hget_append)

lemma lb_to_dict: "well_formed w \<Longrightarrow> log_buffer (snd (to_dict w)) = log_buffer w"
proof (cases "getattrs (attrs w) field_names")
  case (Inl e)
  then show ?thesis by (simp add: to_dict_def)
next
  case (Inr kvs)
  assume "well_formed w"
  moreover have "snd (to_dict w) = snd (alloc (ODict kvs) w)"
    using Inr by (simp add: to_dict_def split: prod.splits)
  ultimately show ?thesis by (simp add: lb_alloc)
qed

lemma lb_get_logs: "well_formed w \<Longrightarrow> log_buffer (snd (get_logs n w)) = log_buffer w"
proof -
  assume wf: "well_formed w"
  then obtain xs where xs: "hget (heap w) (log_lines w) = Some (OList xs)"
    by (auto simp: well_formed_def is_list_def split: option.splits pyobj.splits)
  then have "snd (get_logs n w) = snd (alloc (OList (slice_from (- n) xs)) w)"
    by (simp add: get_logs_def split: prod.splits)
  then show ?thesis using wf by (simp add: lb_alloc)
qed

lemma lb_send_event:
  assumes "well_formed w"
  shows "log_buffer (snd (send_event et d w)) = log_buffer w"
proof -
  from send_event_wf[OF assms, of et d] obtain w' where
    w': "send_event et d w = (Inr (), w')" "log_lines w' = log_lines w"
        "\<forall>a. a \<notin> set (subscribers w) \<longrightarrow> hget (heap w') a = hget (heap w) a"
    by blast
  have "log_lines w \<notin> set (subscribers w)"
    using assms by (auto simp: well_formed_def list_all_iff dest: list_not_queue)
  then show ?thesis using w' by (simp add: log_buffer_def)
qed

lemma lb_subscribe: "well_formed w \<Longrightarrow> log_buffer (snd (subscribe w)) = log_buffer w"
  using log_lines_less[of w] by (simp add: log_buffer_def subscribe_def alloc_def hget_append)

lemma lb_sse_iter: "log_buffer (snd (sse_iter q w)) = log_buffer w"
  by (cases "log_lines w = q")
    (auto simp: log_buffer_def sse_iter_hget sse_iter_rest split: option.splits pyobj.splits)

lemma lb_notify:
  assumes "well_formed w"
  shows "log_buffer (snd (notify dumps w)) = log_buffer w"
proof -
  obtain r w1 where t: "to_dict w = (r, w1)" by (cases "to_dict w")
  have wf1: "well_formed w1" using quiet_step[OF assms quiet_to_dict] t by simp
  have l1: "log_buffer w1 = log_buffer w" using lb_to_dict[OF assms] t by simp
  show ?thesis
  proof (cases r)
    case (Inl e)
    then show ?thesis using t l1 by (simp add: notify_def)
  next
    case (Inr a)
    then show ?thesis using t l1 lb_send_event[OF wf1]
      by (cases "dumps (heap w1) a") (simp_all add: notify_def)
  qed
qed

lemma lb_sse_init:
  assumes "well_formed w"
  shows "log_buffer (snd (sse_init dumps w)) = log_buffer w"
proof -
  obtain r1 w1 where t: "to_dict w = (r1, w1)" by (cases "to_dict w")
  have wf1: "well_formed w1" using quiet_step[OF assms quiet_to_dict] t by simp
  have l1: "log_buffer w1 = log_buffer w" using lb_to_dict[OF assms] t by simp
  show ?thesis
  proof (cases r1)
    case (Inl e)
    then show ?thesis using t l1 by (simp add: sse_init_def)
  next
    case (Inr a)
    obtain r2 w2 where g: "get_logs 200 w1 = (r2, w2)" by (cases "get_logs 200 w1")
    have wf2: "well_formed w2" using quiet_step[OF wf1 quiet_get_logs, of 200] g by simp
    have l2: "log_buffer w2 = log_buffer w" using lb_get_logs[OF wf1, of 200] g l1 by simp
    show ?thesis
    proof (cases r2)
      case (Inl e)
      then show ?thesis using t Inr g l2 by (simp add: sse_init_def)
    next
      case b: (Inr b)
      define w3 where "w3 = snd (alloc (ODict [(''state'', VRef a), (''logs'', VRef b)]) w2)"
      have al: "alloc (ODict [(''state'', VRef a), (''logs'', VRef b)]) w2 = (length (heap w2), w3)"
        by (simp add: w3_def alloc_def)
      have wf3: "well_formed w3" using well_formed_alloc[OF wf2] by (simp add: w3_def)
      have l3: "log_buffer w3 = log_buffer w" using lb_alloc[OF wf2] l2 by (simp add: w3_def)
      obtain w4 where sub: "subscribe w3 = (length (heap w3), w4)"
        by (simp add: subscribe_def alloc_def)
      have l4: "log_buffer w4 = log_buffer w" using lb_subscribe[OF wf3] sub l3 by simp
      show ?thesis
        using t \<open>r1 = Inr a\<close> g b al sub l3 l4
        by (cases "dumps (heap w3) (length (heap w2))") (simp_all add: sse_init_def)
    qed
  qed
qed

lemma log_buffer_step:
  assumes "well_formed w"
  shows "(\<exists>line. x = AddLog line) \<or> log_buffer (step dumps x w) = log_buffer w"
proof (cases x)
  case (SetAttr k v)
  then show ?thesis by (simp add: setattr_def log_buffer_def)
next
  case (Unsubscribe q)
  then show ?thesis by (simp add: unsubscribe_def log_buffer_def)
qed (simp_all add: lb_notify[OF assms] lb_subscribe[OF assms] lb_sse_iter lb_get_logs[OF assms]
      lb_to_dict[OF assms] lb_sse_init[OF assms])

lemma notify_spec:
  assumes "well_formed w"
  shows "\<exists>snap. map fst snap = field_names \<and>
            (\<forall>k \<in> set field_names. map_of snap k = attrs w k) \<and>
            (case dumps (heap w @ [ODict snap]) (length (heap w)) of
               Inl e \<Rightarrow>
                 fst (notify dumps w) = Inl e \<and>
                 subscribers (snd (notify dumps w)) = subscribers w \<and>
                 (\<forall>q \<in> set (subscribers w).
                    queue_items (heap (snd (notify dumps w))) q = queue_items (heap w) q)
             | Inr s \<Rightarrow>
                 fst (notify dumps w) = Inr () \<and>
                 subscribers (snd (notify dumps w)) =
                   filter (\<lambda>q. \<not> is_full (heap w) q) (subscribers w) \<and>
                 (\<forall>q \<in> set (subscribers w).
                    queue_items (heap (snd (notify dumps w))) q =
                      (if is_full (heap w) q then queue_items (heap w) q
                       else queue_items (heap w) q @ [(''state'', s)])))"
proof -
  have "list_all (\<lambda>k'. attrs w k' \<noteq> None) field_names" using assms by (simp add: well_formed_def)
  from getattrs_spec[OF this] obtain snap where
    snap: "getattrs (attrs w) field_names = Inr snap" "map fst snap = field_names"
         "\<forall>k' \<in> set field_names. map_of snap k' = attrs w k'"
    by blast
  define w2 where "w2 = w\<lparr>heap := heap w @ [ODict snap]\<rparr>"
  have t: "to_dict w = (Inr (length (heap w)), w2)"
    using snap(1) by (simp add: to_dict_def alloc_def w2_def)
  have q12: "quiet w w2" using quiet_to_dict[of w] t by simp
  have wf2: "well_formed w2" using quiet_step[OF assms q12] by simp
  have isq: "\<And>q. q \<in> set (subscribers w) \<Longrightarrow> is_queue (heap w) q"
    using assms by (simp add: well_formed_def list_all_iff)
  have items2: "\<And>q. q \<in> set (subscribers w) \<Longrightarrow> queue_items (heap w2) q = queue_items (heap w) q"
    using isq by (simp add: w2_def queue_items_append_heap is_queue_less)
  have out: "case dumps (heap w @ [ODict snap]) (length (heap w)) of
               Inl e \<Rightarrow>
                 fst (notify dumps w) = Inl e \<and>
                 subscribers (snd (notify dumps w)) = subscribers w \<and>
                 (\<forall>q \<in> set (subscribers w).
                    queue_items (heap (snd (notify dumps w))) q = queue_items (heap w) q)
             | Inr s \<Rightarrow>
                 fst (notify dumps w) = Inr () \<and>
                 subscribers (snd (notify dumps w)) =
                   filter (\<lambda>q. \<not> is_full (heap w) q) (subscribers w) \<and>
                 (\<forall>q \<in> set (subscribers w).
                    queue_items (heap (snd (notify dumps w))) q =
                      (if is_full (heap w) q then queue_items (heap w) q
                       else queue_items (heap w) q @ [(''state'', s)]))"
  proof (cases "dumps (heap w @ [ODict snap]) (length (heap w))")
    case (Inl e)
    then have "notify dumps w = (Inl e, w2)" using t by (simp add: notify_def w2_def)
    then show ?thesis using Inl items2 by (simp add: w2_def)
  next
    case (Inr s)
    then have n: "notify dumps w = send_event ''state'' s w2"
      using t by (simp add: notify_def w2_def)
    from send_event_wf[OF wf2, of "''state''" s] have f: "fst (send_event ''state'' s w2) = Inr ()"
      by auto
    from publish_after_quiet[OF assms q12, of "''state''" s] have
      p: "subscribers (snd (send_event ''state'' s w2)) =
            filter (\<lambda>q. \<not> is_full (heap w) q) (subscribers w)"
         "\<And>q mx items. hget (heap w) q = Some (OQueue mx items) \<Longrightarrow>
            hget (heap (snd (send_event ''state'' s w2))) q =
              Some (OQueue mx (if q \<in> set (subscribers w) \<and> \<not> is_full (heap w) q
                               then items @ [(''state'', s)] else items))"
      by simp_all
    have "queue_items (heap (snd (send_event ''state'' s w2))) q =
            (if is_full (heap w) q then queue_items (heap w) q
             else queue_items (heap w) q @ [(''state'', s)])"
      if q: "q \<in> set (subscribers w)" for q
    proof -
      obtain mx items where h: "hget (heap w) q = Some (OQueue mx items)"
        using isq[OF q] by (auto dest: is_queueE)
      show ?thesis using p(2)[OF h] h q by (simp add: queue_items_def)
    qed
    then show ?thesis using Inr n f p(1) by simp
  qed
  show ?thesis by (rule exI[of _ snap]) (intro conjI snap(2) snap(3) out)
qed

text \<open>
  Claim C1, as the code has it. There is no \<open>update(fields)\<close>: the producer assigns
  the fields on the state object, each under a public data name, and calls
  \<open>_notify()\<close> afterwards. The assignments store every value under its name, declared
  field or not (a later assignment to the same name wins), and send nothing: the
  store, the registry and the log buffer stay as they are. \<open>_notify\<close> then builds the
  snapshot of the declared fields, which shows the assigned values, and if
  \<open>json.dumps\<close> returns text \<open>s\<close> it publishes \<open>("state", s)\<close>: every registered
  queue that is not full receives it, the full ones are dropped. If \<open>json.dumps\<close>
  raises, \<open>_notify\<close> raises and nothing is sent. Of the calls on the state (field
  writes being to public data names), only a field write changes a field and only
  \<open>add_log\<close> changes the log buffer.
\<close>

theorem assign_then_notify:
  assumes "well_formed w" and "list_all public_name (map fst kvs)" and "public_op x"
  shows "heap (setattrs kvs w) = heap w \<and> subscribers (setattrs kvs w) = subscribers w \<and>
         log_buffer (setattrs kvs w) = log_buffer w \<and>
         attrs (setattrs kvs w) = attrs w ++ map_of (rev kvs) \<and>
         (\<exists>snap. map fst snap = field_names \<and>
            (\<forall>k \<in> set field_names. map_of snap k = (attrs w ++ map_of (rev kvs)) k) \<and>
            (case dumps (heap w @ [ODict snap]) (length (heap w)) of
               Inl e \<Rightarrow>
                 fst (notify dumps (setattrs kvs w)) = Inl e \<and>
                 subscribers (snd (notify dumps (setattrs kvs w))) = subscribers w \<and>
                 (\<forall>q \<in> set (subscribers w).
                    queue_items (heap (snd (notify dumps (setattrs kvs w)))) q =
                      queue_items (heap w) q)
             | Inr s \<Rightarrow>
                 fst (notify dumps (setattrs kvs w)) = Inr () \<and>
                 subscribers (snd (notify dumps (setattrs kvs w))) =
                   filter (\<lambda>q. \<not> is_full (heap w) q) (subscribers w) \<and>
                 (\<forall>q \<in> set (subscribers w).
                    queue_items (heap (snd (notify dumps (setattrs kvs w)))) q =
                      (if is_full (heap w) q then queue_items (heap w) q
                       else queue_items (heap w) q @ [(''state'', s)])))) \<and>
         ((\<exists>k v. x = SetAttr k v) \<or> attrs (step dumps x w) = attrs w) \<and>
         ((\<exists>line. x = AddLog line) \<or> log_buffer (step dumps x w) = log_buffer w)"
proof -
  define w1 where "w1 = setattrs kvs w"
  have r: "heap w1 = heap w" "subscribers w1 = subscribers w" "log_lines w1 = log_lines w"
    using setattrs_rest[of kvs w] by (simp_all add: w1_def)
  have a: "attrs w1 = attrs w ++ map_of (rev kvs)" by (simp add: w1_def setattrs_attrs)
  have lb: "log_buffer w1 = log_buffer w" using r by (simp add: log_buffer_def)
  have wf1: "well_formed w1" using quiet_step[OF assms(1) quiet_setattrs] by (simp add: w1_def)
  have ex: "\<exists>snap. map fst snap = field_names \<and>
            (\<forall>k \<in> set field_names. map_of snap k = (attrs w ++ map_of (rev kvs)) k) \<and>
            (case dumps (heap w @ [ODict snap]) (length (heap w)) of
               Inl e \<Rightarrow>
                 fst (notify dumps w1) = Inl e \<and>
                 subscribers (snd (notify dumps w1)) = subscribers w \<and>
                 (\<forall>q \<in> set (subscribers w).
                    queue_items (heap (snd (notify dumps w1))) q = queue_items (heap w) q)
             | Inr s \<Rightarrow>
                 fst (notify dumps w1) = Inr () \<and>
                 subscribers (snd (notify dumps w1)) =
                   filter (\<lambda>q. \<not> is_full (heap w) q) (subscribers w) \<and>
                 (\<forall>q \<in> set (subscribers w).
                    queue_items (heap (snd (notify dumps w1))) q =
                      (if is_full (heap w) q then queue_items (heap w) q
                       else queue_items (heap w) q @ [(''state'', s)])))"
    using notify_spec[OF wf1, of dumps] unfolding r a .
  show ?thesis
    unfolding w1_def[symmetric]
    by (intro conjI r(1) r(2) lb a ex attrs_step log_buffer_step[OF assms(1)])
qed

theorem assign_then_notify_witness:
  "well_formed two_viewers \<and>
   list_all public_name (map fst [(''status'', VStr ''trading''), (''note'', VStr ''x'')]) \<and>
   public_op Notify \<and>
   attrs (setattrs [(''status'', VStr ''trading''), (''note'', VStr ''x'')] two_viewers) ''status'' =
     Some (VStr ''trading'') \<and>
   attrs (setattrs [(''status'', VStr ''trading''), (''note'', VStr ''x'')] two_viewers) ''note'' =
     Some (VStr ''x'') \<and>
   fst (notify (\<lambda>h a. Inr ''{}'')
     (setattrs [(''status'', VStr ''trading''), (''note'', VStr ''x'')] two_viewers)) = Inr () \<and>
   subscribers (snd (notify (\<lambda>h a. Inr ''{}'')
     (setattrs [(''status'', VStr ''trading''), (''note'', VStr ''x'')] two_viewers))) = [3] \<and>
   queue_items (heap (snd (notify (\<lambda>h a. Inr ''{}'')
     (setattrs [(''status'', VStr ''trading''), (''note'', VStr ''x'')] two_viewers)))) 3 =
     [(''state'', ''{}'')]"
proof -
  let ?kvs = "[(''status'', VStr ''trading''), (''note'', VStr ''x'')]"
  have wf: "well_formed two_viewers" by (rule well_formed_two_viewers)
  have p: "list_all public_name (map fst ?kvs)" by (simp add: public_name_def method_names_def)
  have s: "subscribers two_viewers = [3, 4]" by (simp add: two_viewers_def)
  have f3: "\<not> is_full (heap two_viewers) 3" by (simp add: two_viewers_def is_full_def hget_def)
  have f4: "is_full (heap two_viewers) 4" by (simp add: two_viewers_def is_full_def hget_def)
  have q3: "queue_items (heap two_viewers) 3 = []"
    by (simp add: two_viewers_def queue_items_def hget_def)
  show ?thesis
    using assign_then_notify[where x = Notify and dumps = "\<lambda>h a. Inr ''{}''", OF wf p] wf p
    by (auto simp: s f3 f4 q3)
qed

text \<open>
  Claim C1 as stated fails: writing a field sends no event (the queue of the viewer at
  address 3 stays empty and the registry is as before), and \<open>_notify\<close>, the call that
  publishes the state event, takes no fields and changes none.
\<close>

theorem field_write_sends_no_event:
  "queue_items (heap (setattr ''status'' (VStr ''trading'') two_viewers)) 3 = [] \<and>
   subscribers (setattr ''status'' (VStr ''trading'') two_viewers) = [3, 4] \<and>
   attrs (snd (notify (\<lambda>h a. Inr ''{}'') two_viewers)) ''status'' = Some (VStr ''starting'')"
  by code_simp

end
